theory Spec2Isabelle
  imports Main "HOL-Library.Word" "HOL-Library.Multiset"
begin

section \<open>The counter of the sample task system (TLCounter.h)\<close>

text \<open>
  \<^verbatim>\<open>TLCounter\<close> is a signed 32-bit counter guarded by a mutex, with a condition variable
  on which threads sleep while the counter is positive. The two platform branches of the
  header (critical section and \<^verbatim>\<open>std::mutex\<close>) have the same statements; the model follows
  the \<^verbatim>\<open>std::mutex\<close> branch.

  Both fields are \<^verbatim>\<open>int32_t\<close>: they are 32-bit words here, read as two's complement by
  \<open>sint\<close> and compared by the signed orders \<open>\<le>s\<close> and \<open><s\<close>. Arithmetic wraps around
  (C++ leaves signed overflow undefined; the wrap-around is what the compiled code does).
\<close>

record TLCounter =
  counter :: "32 word"
  numWaiters :: "32 word"

text \<open>The default member initialisers: \<^verbatim>\<open>counter = 0\<close>, \<^verbatim>\<open>numWaiters = 0\<close>.\<close>

definition TLCounter_new :: TLCounter where
  "TLCounter_new = \<lparr>counter = 0, numWaiters = 0\<rparr>"

text \<open>
  What a critical section tells the condition variable before it unlocks: nothing,
  \<^verbatim>\<open>notify_one()\<close> or \<^verbatim>\<open>notify_all()\<close>.
\<close>

datatype signal = NoWake | NotifyOne | NotifyAll

text \<open>
  The macro \<^verbatim>\<open>TL_WAKE_ONE\<close> selects the wake policy at compile time; the header defines it
  as 1. Every operation below takes its value as the parameter \<open>wake_one\<close>, so that both
  branches of each \<^verbatim>\<open>#if TL_WAKE_ONE\<close> are modelled.
\<close>

definition TL_WAKE_ONE :: bool where
  "TL_WAKE_ONE = True"

subsection \<open>The mutating operations\<close>

text \<open>
  Each one runs under the lock from its first statement to its return, so it is one atomic
  step from the counter before to the counter after, the returned value and the signal.
\<close>

record mutated =
  gate_after :: TLCounter
  returned :: "32 word"
  notified :: signal

text \<open>The \<^verbatim>\<open>#if TL_WAKE_ONE ... #else ... #endif\<close> inside \<^verbatim>\<open>if (counter <= 0)\<close>.\<close>

definition wake_waiters :: "bool \<Rightarrow> signal" where
  "wake_waiters wake_one = (if wake_one then NotifyOne else NotifyAll)"

definition Increment :: "TLCounter \<Rightarrow> mutated" where
  "Increment g =
     (let g' = g\<lparr>counter := counter g + 1\<rparr>
      in \<lparr>gate_after = g', returned = counter g', notified = NoWake\<rparr>)"

definition Decrement :: "bool \<Rightarrow> TLCounter \<Rightarrow> mutated" where
  "Decrement wake_one g =
     (let g' = g\<lparr>counter := counter g - 1\<rparr>
      in \<lparr>gate_after = g', returned = counter g',
          notified = (if counter g' \<le>s 0 then wake_waiters wake_one else NoWake)\<rparr>)"

definition Add :: "32 word \<Rightarrow> TLCounter \<Rightarrow> mutated" where
  "Add count' g =
     (let g' = g\<lparr>counter := counter g + count'\<rparr>
      in \<lparr>gate_after = g', returned = counter g', notified = NoWake\<rparr>)"

definition Subtract :: "bool \<Rightarrow> 32 word \<Rightarrow> TLCounter \<Rightarrow> mutated" where
  "Subtract wake_one count' g =
     (let g' = g\<lparr>counter := counter g - count'\<rparr>
      in \<lparr>gate_after = g', returned = counter g',
          notified = (if counter g' \<le>s 0 then wake_waiters wake_one else NoWake)\<rparr>)"

subsection \<open>The waiting operations, seen from the calling thread\<close>

text \<open>
  A waiting operation holds the lock except inside \<^verbatim>\<open>condVar.wait(lock)\<close>, which unlocks,
  sleeps until a wake-up (a notification or a spurious one) and locks again. While the
  caller sleeps the other threads run their own critical sections on the counter. The
  caller's view of one sleep is therefore a function on the counter's state: what the
  others did between the caller's \<^verbatim>\<open>wait\<close> and its wake-up. A call is run against the
  list of these functions, one for each wake-up that is going to arrive. When the list is
  used up and the caller wants to sleep again, no wake-up comes any more and the call
  never returns: the result is \<open>None\<close>.
\<close>

type_synonym others = "TLCounter \<Rightarrow> TLCounter"

text \<open>\<^verbatim>\<open>numWaiters++\<close> before the wait and \<^verbatim>\<open>numWaiters--\<close> after it.\<close>

definition register_waiter :: "TLCounter \<Rightarrow> TLCounter" where
  "register_waiter g = g\<lparr>numWaiters := numWaiters g + 1\<rparr>"

definition unregister_waiter :: "TLCounter \<Rightarrow> TLCounter" where
  "unregister_waiter g = g\<lparr>numWaiters := numWaiters g - 1\<rparr>"

text \<open>
  One pass through \<^verbatim>\<open>numWaiters++; condVar.wait(lock); numWaiters--;\<close> with the others
  running \<open>f\<close> during the sleep.
\<close>

definition sleep_once :: "others \<Rightarrow> TLCounter \<Rightarrow> TLCounter" where
  "sleep_once f g = unregister_waiter (f (register_waiter g))"

text \<open>
  The block \<^verbatim>\<open>#if TL_WAKE_ONE if (numWaiters > 0) condVar.notify_one(); #endif\<close> at the
  end of both waiting operations.
\<close>

definition relay_signal :: "bool \<Rightarrow> TLCounter \<Rightarrow> signal" where
  "relay_signal wake_one g = (if wake_one \<and> 0 <s numWaiters g then NotifyOne else NoWake)"

text \<open>
  What a completed call hands back: the state it leaves under the lock, the value of
  \<^verbatim>\<open>didWait\<close> it returns, and the signal of its relay block. \<open>sleeps\<close> is not a variable
  of the source: it counts the completed \<^verbatim>\<open>condVar.wait\<close> calls, for the theorems.
\<close>

record waited =
  gate_exit :: TLCounter
  didWait :: bool
  relay :: signal
  sleeps :: nat

definition wait_exit :: "bool \<Rightarrow> bool \<Rightarrow> nat \<Rightarrow> TLCounter \<Rightarrow> waited" where
  "wait_exit wake_one d n g =
     \<lparr>gate_exit = g, didWait = d, relay = relay_signal wake_one g, sleeps = n\<rparr>"

text \<open>
  The loop \<^verbatim>\<open>while (counter > 0) { numWaiters++; condVar.wait(lock); numWaiters--;
  didWait = true; }\<close> from its head, with the current \<^verbatim>\<open>didWait\<close>, followed by the relay
  block and the return.
\<close>

fun WaitUntilZero_loop ::
  "bool \<Rightarrow> bool \<Rightarrow> nat \<Rightarrow> TLCounter \<Rightarrow> others list \<Rightarrow> waited option" where
  "WaitUntilZero_loop wake_one d n g [] =
     (if 0 <s counter g then None else Some (wait_exit wake_one d n g))"
| "WaitUntilZero_loop wake_one d n g (f # env) =
     (if 0 <s counter g
      then WaitUntilZero_loop wake_one True (Suc n) (sleep_once f g) env
      else Some (wait_exit wake_one d n g))"

definition WaitUntilZero :: "bool \<Rightarrow> TLCounter \<Rightarrow> others list \<Rightarrow> waited option" where
  "WaitUntilZero wake_one g env = WaitUntilZero_loop wake_one False 0 g env"

text \<open>The same with \<^verbatim>\<open>if (counter > 0)\<close> in place of the loop.\<close>

definition WaitOneWakeup :: "bool \<Rightarrow> TLCounter \<Rightarrow> others list \<Rightarrow> waited option" where
  "WaitOneWakeup wake_one g env =
     (if 0 <s counter g
      then (case env of
              [] \<Rightarrow> None
            | f # _ \<Rightarrow> Some (wait_exit wake_one True 1 (sleep_once f g)))
      else Some (wait_exit wake_one False 0 g))"

subsection \<open>Sequences of mutating calls\<close>

text \<open>
  The lock serialises the calls of all threads: whatever the interleaving, the counter
  sees them one after the other, in some order. A serialisation is a list of calls.
\<close>

datatype call = CallIncrement | CallDecrement | CallAdd "32 word" | CallSubtract "32 word"

fun mutate :: "bool \<Rightarrow> call \<Rightarrow> TLCounter \<Rightarrow> mutated" where
  "mutate wake_one CallIncrement g = Increment g"
| "mutate wake_one CallDecrement g = Decrement wake_one g"
| "mutate wake_one (CallAdd n) g = Add n g"
| "mutate wake_one (CallSubtract n) g = Subtract wake_one n g"

fun serial :: "bool \<Rightarrow> call list \<Rightarrow> TLCounter \<Rightarrow> TLCounter" where
  "serial wake_one [] g = g"
| "serial wake_one (c # cs) g = serial wake_one cs (gate_after (mutate wake_one c g))"

text \<open>
  What a call contributes to the net delta, and the net delta of a sequence of calls, in
  the arithmetic of the counter.
\<close>

fun contribution :: "call \<Rightarrow> 32 word" where
  "contribution CallIncrement = 1"
| "contribution CallDecrement = - 1"
| "contribution (CallAdd n) = n"
| "contribution (CallSubtract n) = - n"

definition net_delta :: "call list \<Rightarrow> 32 word" where
  "net_delta cs = sum_list (map contribution cs)"

text \<open>
  The same as integers: the argument of \<^verbatim>\<open>Add\<close> and \<^verbatim>\<open>Subtract\<close> is an \<^verbatim>\<open>int32_t\<close>,
  read by \<open>sint\<close>, and the sum is not bounded.
\<close>

fun contribution_int :: "call \<Rightarrow> int" where
  "contribution_int CallIncrement = 1"
| "contribution_int CallDecrement = - 1"
| "contribution_int (CallAdd n) = sint n"
| "contribution_int (CallSubtract n) = - sint n"

definition net_delta_int :: "call list \<Rightarrow> int" where
  "net_delta_int cs = sum_list (map contribution_int cs)"

text \<open>An integer fits an \<^verbatim>\<open>int32_t\<close>.\<close>

definition fits_int32 :: "int \<Rightarrow> bool" where
  "fits_int32 i = (- (2 ^ 31) \<le> i \<and> i < 2 ^ 31)"

subsection \<open>The threads around the counter\<close>

text \<open>
  A thread is outside the waiting operations (\<open>Running\<close>), asleep inside
  \<^verbatim>\<open>condVar.wait\<close> (\<open>Parked\<close>), or woken up and about to take the lock again (\<open>Woken\<close>);
  the last two remember which operation the thread is in. The system is the counter, the
  state of every thread (a thread is its index in the list) and the values the waiting
  operations have returned so far, oldest first.
\<close>

datatype wait = UntilZero | OneWakeup

datatype status = Running | Parked wait | Woken wait

record system =
  gate :: TLCounter
  threads :: "status list"
  returns :: "(nat \<times> bool) list"

fun is_parked :: "status \<Rightarrow> bool" where
  "is_parked (Parked k) = True"
| "is_parked s = False"

fun is_woken :: "status \<Rightarrow> bool" where
  "is_woken (Woken k) = True"
| "is_woken s = False"

fun wake_up :: "status \<Rightarrow> status" where
  "wake_up (Parked k) = Woken k"
| "wake_up s = s"

text \<open>The threads asleep on the condition variable.\<close>

definition sleepers :: "status list \<Rightarrow> nat list" where
  "sleepers ths = filter (\<lambda>t. is_parked (ths ! t)) [0..<length ths]"

text \<open>
  \<^verbatim>\<open>notify_one()\<close> wakes one sleeper if there is one, and the library chooses which:
  the choice is the number \<open>pick\<close>. \<^verbatim>\<open>notify_all()\<close> wakes them all.
\<close>

definition notify_one :: "nat \<Rightarrow> status list \<Rightarrow> status list" where
  "notify_one pick ths =
     (case sleepers ths of
        [] \<Rightarrow> ths
      | t # ts \<Rightarrow> (let u = (t # ts) ! (pick mod length (t # ts))
                   in ths[u := wake_up (ths ! u)]))"

definition notify_all :: "status list \<Rightarrow> status list" where
  "notify_all ths = map wake_up ths"

fun deliver :: "signal \<Rightarrow> nat \<Rightarrow> status list \<Rightarrow> status list" where
  "deliver NoWake pick ths = ths"
| "deliver NotifyOne pick ths = notify_one pick ths"
| "deliver NotifyAll pick ths = notify_all ths"

text \<open>
  The steps of the system are the critical sections of the source, one thread at a time:
  \<^item> \<open>Call t c pick\<close>: thread \<open>t\<close> runs the mutating operation \<open>c\<close>;
  \<^item> \<open>Wait t k pick\<close>: thread \<open>t\<close> enters the waiting operation \<open>k\<close> and runs it up to its
    first \<^verbatim>\<open>condVar.wait\<close>, or up to its return when it does not sleep;
  \<^item> \<open>Resume t pick\<close>: the woken thread \<open>t\<close> takes the lock again and runs on from
    \<^verbatim>\<open>numWaiters--\<close> to its next \<^verbatim>\<open>condVar.wait\<close> or to its return;
  \<^item> \<open>Spurious t\<close>: the sleeping thread \<open>t\<close> wakes up without a notification.
  A step that its thread cannot take is \<open>None\<close>.
\<close>

datatype event = Call nat call nat | Wait nat wait nat | Resume nat nat | Spurious nat

definition go_to_sleep :: "nat \<Rightarrow> wait \<Rightarrow> system \<Rightarrow> system" where
  "go_to_sleep t k s =
     s\<lparr>gate := register_waiter (gate s), threads := (threads s)[t := Parked k]\<rparr>"

definition finish_wait :: "bool \<Rightarrow> nat \<Rightarrow> bool \<Rightarrow> nat \<Rightarrow> system \<Rightarrow> system" where
  "finish_wait wake_one t d pick s =
     s\<lparr>threads := deliver (relay_signal wake_one (gate s)) pick ((threads s)[t := Running]),
       returns := returns s @ [(t, d)]\<rparr>"

fun step :: "bool \<Rightarrow> event \<Rightarrow> system \<Rightarrow> system option" where
  "step wake_one (Call t c pick) s =
     (if t < length (threads s) \<and> threads s ! t = Running
      then (let r = mutate wake_one c (gate s)
            in Some (s\<lparr>gate := gate_after r,
                       threads := deliver (notified r) pick (threads s)\<rparr>))
      else None)"
| "step wake_one (Wait t k pick) s =
     (if t < length (threads s) \<and> threads s ! t = Running
      then Some (if 0 <s counter (gate s)
                 then go_to_sleep t k s
                 else finish_wait wake_one t False pick s)
      else None)"
| "step wake_one (Resume t pick) s =
     (if t < length (threads s)
      then (case threads s ! t of
              Woken k \<Rightarrow>
                (let s' = s\<lparr>gate := unregister_waiter (gate s)\<rparr>
                 in Some (if k = UntilZero \<and> 0 <s counter (gate s')
                          then go_to_sleep t k s'
                          else finish_wait wake_one t True pick s'))
            | _ \<Rightarrow> None)
      else None)"
| "step wake_one (Spurious t) s =
     (if t < length (threads s)
      then (case threads s ! t of
              Parked k \<Rightarrow> Some (s\<lparr>threads := (threads s)[t := Woken k]\<rparr>)
            | _ \<Rightarrow> None)
      else None)"

fun run :: "bool \<Rightarrow> event list \<Rightarrow> system \<Rightarrow> system option" where
  "run wake_one [] s = Some s"
| "run wake_one (e # es) s =
     (case step wake_one e s of None \<Rightarrow> None | Some s' \<Rightarrow> run wake_one es s')"

text \<open>A fresh counter with \<open>n\<close> threads, none of them inside an operation.\<close>

definition start :: "nat \<Rightarrow> system" where
  "start n = \<lparr>gate = TLCounter_new, threads = replicate n Running, returns = []\<rparr>"

text \<open>The mutating calls of a schedule, in the order in which they take the lock.\<close>

fun calls_of :: "event list \<Rightarrow> call list" where
  "calls_of [] = []"
| "calls_of (Call t c pick # es) = c # calls_of es"
| "calls_of (e # es) = calls_of es"

text \<open>The number of threads inside a waiting operation, asleep or woken.\<close>

definition waiting :: "status list \<Rightarrow> nat" where
  "waiting ths = length (filter (\<lambda>x. x \<noteq> Running) ths)"

text \<open>
  \<^verbatim>\<open>numWaiters\<close> counts the threads between their \<^verbatim>\<open>numWaiters++\<close> and their
  \<^verbatim>\<open>numWaiters--\<close>, and there are fewer than \<open>2 ^ 31\<close> threads.
\<close>

definition consistent :: "system \<Rightarrow> bool" where
  "consistent s =
     (numWaiters (gate s) = of_nat (waiting (threads s)) \<and> length (threads s) < 2 ^ 31)"

text \<open>
  The wake chain does not stall: with the counter at zero or below, a sleeper is left
  only under the wake-one policy and only while some woken thread is still on its way to
  the relay block.
\<close>

definition no_stall :: "bool \<Rightarrow> system \<Rightarrow> bool" where
  "no_stall wake_one s =
     (counter (gate s) \<le>s 0 \<and> list_ex is_parked (threads s)
        \<longrightarrow> wake_one \<and> list_ex is_woken (threads s))"

text \<open>
  A step drains silently when it takes the counter from above zero to zero or below
  without a signal.
\<close>

fun drains_silently :: "bool \<Rightarrow> event \<Rightarrow> system \<Rightarrow> bool" where
  "drains_silently wake_one (Call t c pick) s =
     (0 <s counter (gate s) \<and> counter (gate_after (mutate wake_one c (gate s))) \<le>s 0
      \<and> notified (mutate wake_one c (gate s)) = NoWake)"
| "drains_silently wake_one e s = False"

text \<open>
  What the callers may do wrong: a step adds to drain when it is a call of
  \<^verbatim>\<open>Increment\<close> or \<^verbatim>\<open>Add\<close> that takes the counter from above zero to zero or below
  (an \<^verbatim>\<open>Add\<close> of a negative number, or an overflow). A schedule never adds to drain
  from \<open>s\<close> when none of its steps does: the counter gets to zero or below through
  \<^verbatim>\<open>Decrement\<close> and \<^verbatim>\<open>Subtract\<close> only.
\<close>

fun adds_to_drain :: "event \<Rightarrow> system \<Rightarrow> bool" where
  "adds_to_drain (Call t CallIncrement pick) s =
     (0 <s counter (gate s) \<and> counter (gate_after (Increment (gate s))) \<le>s 0)"
| "adds_to_drain (Call t (CallAdd n) pick) s =
     (0 <s counter (gate s) \<and> counter (gate_after (Add n (gate s))) \<le>s 0)"
| "adds_to_drain e s = False"

fun never_adds_to_drain :: "bool \<Rightarrow> event list \<Rightarrow> system \<Rightarrow> bool" where
  "never_adds_to_drain wake_one [] s = True"
| "never_adds_to_drain wake_one (e # es) s =
     (\<not> adds_to_drain e s \<and>
      (case step wake_one e s of
         None \<Rightarrow> True
       | Some s' \<Rightarrow> never_adds_to_drain wake_one es s'))"

fun is_resume :: "event \<Rightarrow> bool" where
  "is_resume (Resume t pick) = True"
| "is_resume e = False"

text \<open>The counter is at zero or below in \<open>s\<close> and stays there along the schedule.\<close>

fun stays_drained :: "bool \<Rightarrow> event list \<Rightarrow> system \<Rightarrow> bool" where
  "stays_drained wake_one [] s = (counter (gate s) \<le>s 0)"
| "stays_drained wake_one (e # es) s =
     (counter (gate s) \<le>s 0 \<and>
      (case step wake_one e s of None \<Rightarrow> True | Some s' \<Rightarrow> stays_drained wake_one es s'))"

text \<open>
  A scheduler that never stops is a function from the step number to the event; its
  first \<open>i\<close> events are a schedule. It is fair to the woken threads when every thread
  that is woken after some number of steps is resumed at that step or later: a woken
  thread gets the lock in the end.
\<close>

definition prefix_of :: "(nat \<Rightarrow> event) \<Rightarrow> nat \<Rightarrow> event list" where
  "prefix_of sched i = map sched [0..<i]"

definition fair :: "bool \<Rightarrow> (nat \<Rightarrow> event) \<Rightarrow> system \<Rightarrow> bool" where
  "fair wake_one sched s =
     (\<forall>i s' t. run wake_one (prefix_of sched i) s = Some s'
          \<and> t < length (threads s') \<and> is_woken (threads s' ! t)
        \<longrightarrow> (\<exists>j p. i \<le> j \<and> sched j = Resume t p))"

section \<open>The operations, one call at a time\<close>

subsection \<open>Arithmetic on \<^verbatim>\<open>int32_t\<close>\<close>

lemma sint_sub_fits:
  "fits_int32 (sint (a :: 32 word) - sint (b :: 32 word)) \<Longrightarrow> sint (a - b) = sint a - sint b"
  unfolding fits_int32_def
  by (simp add: sint_word_ariths signed_take_bit_int_eq_self)

lemma sint_of_int_fits:
  "fits_int32 i \<Longrightarrow> sint (word_of_int i :: 32 word) = i"
  unfolding fits_int32_def
  by (simp add: sint_sbintrunc' signed_take_bit_int_eq_self)

subsection \<open>The loop of \<^verbatim>\<open>WaitUntilZero\<close>\<close>

lemma loop_exit:
  "WaitUntilZero_loop w d n g env = Some r \<Longrightarrow>
     counter (gate_exit r) \<le>s 0 \<and> n \<le> sleeps r \<and> (didWait r = (d \<or> n < sleeps r))"
proof (induction env arbitrary: d n g)
  case Nil
  then show ?case by (auto simp: wait_exit_def signed.not_less split: if_splits)
next
  case (Cons f env)
  show ?case
  proof (cases "0 <s counter g")
    case True
    with Cons.prems have "WaitUntilZero_loop w True (Suc n) (sleep_once f g) env = Some r"
      by simp
    from Cons.IH [OF this] show ?thesis by auto
  next
    case False
    with Cons.prems show ?thesis by (auto simp: wait_exit_def signed.not_less)
  qed
qed

lemma loop_drained:
  "counter g \<le>s 0 \<Longrightarrow> WaitUntilZero_loop w d n g env = Some (wait_exit w d n g)"
  by (cases env) (simp_all add: signed.not_less [symmetric])

lemma loop_relay:
  "WaitUntilZero_loop w d n g env = Some r \<Longrightarrow> relay r = relay_signal w (gate_exit r)"
proof (induction env arbitrary: d n g)
  case Nil
  then show ?case by (auto simp: wait_exit_def split: if_splits)
next
  case (Cons f env)
  then show ?case by (cases "0 <s counter g") (auto simp: wait_exit_def)
qed

lemma WaitOneWakeup_relay:
  "WaitOneWakeup w g env = Some r \<Longrightarrow> relay r = relay_signal w (gate_exit r)"
  by (auto simp: WaitOneWakeup_def wait_exit_def split: if_splits list.splits)


subsection \<open>The counter under the mutating operations\<close>

lemma counter_mutate:
  "counter (gate_after (mutate w c g)) = counter g + contribution c"
  by (cases c) (simp_all add: Increment_def Decrement_def Add_def Subtract_def Let_def)

lemma numWaiters_mutate:
  "numWaiters (gate_after (mutate w c g)) = numWaiters g"
  by (cases c) (simp_all add: Increment_def Decrement_def Add_def Subtract_def Let_def)

lemma returned_mutate:
  "returned (mutate w c g) = counter (gate_after (mutate w c g))"
  by (cases c) (simp_all add: Increment_def Decrement_def Add_def Subtract_def Let_def)

lemma net_delta_Nil: "net_delta [] = 0"
  by (simp add: net_delta_def)

lemma net_delta_Cons: "net_delta (c # cs) = contribution c + net_delta cs"
  by (simp add: net_delta_def)

lemma net_delta_append: "net_delta (cs @ ds) = net_delta cs + net_delta ds"
  by (simp add: net_delta_def)

lemma counter_serial:
  "counter (serial w cs g) = counter g + net_delta cs"
  by (induction cs arbitrary: g) (simp_all add: net_delta_Nil net_delta_Cons counter_mutate)

lemma numWaiters_serial:
  "numWaiters (serial w cs g) = numWaiters g"
  by (induction cs arbitrary: g) (simp_all add: numWaiters_mutate)

lemma net_delta_mset:
  assumes "mset cs' = mset cs"
  shows "net_delta cs' = net_delta cs"
proof -
  have "net_delta xs = sum_mset (image_mset contribution (mset xs))" for xs
    unfolding net_delta_def by (metis mset_map sum_mset_sum_list)
  then show ?thesis using assms by simp
qed

lemma contribution_int:
  "contribution c = word_of_int (contribution_int c)"
  by (cases c) simp_all

lemma net_delta_int:
  "net_delta cs = word_of_int (net_delta_int cs)"
  by (induction cs) (simp_all add: net_delta_def net_delta_int_def contribution_int)

lemma counter_sleep_once_serial:
  "counter (sleep_once (serial w cs) g) = counter g + net_delta cs"
  by (simp add: sleep_once_def unregister_waiter_def register_waiter_def counter_serial)

lemma loop_counter:
  "WaitUntilZero_loop w d n g (map (serial w) css) = Some r \<Longrightarrow>
     counter (gate_exit r) = counter g + net_delta (concat (take (sleeps r - n) css))"
proof (induction css arbitrary: d n g)
  case Nil
  then show ?case by (auto simp: wait_exit_def net_delta_Nil split: if_splits)
next
  case (Cons cs css)
  show ?case
  proof (cases "0 <s counter g")
    case True
    with Cons.prems
    have run: "WaitUntilZero_loop w True (Suc n) (sleep_once (serial w cs) g) (map (serial w) css)
                = Some r"
      by simp
    have "Suc n \<le> sleeps r"
      using loop_exit [OF run] by simp
    then have "sleeps r - n = Suc (sleeps r - Suc n)" by simp
    with Cons.IH [OF run] show ?thesis
      by (simp add: counter_sleep_once_serial net_delta_append)
  next
    case False
    with Cons.prems show ?thesis by (auto simp: wait_exit_def net_delta_Nil)
  qed
qed


section \<open>The threads\<close>

subsection \<open>Statuses and notifications\<close>

lemma status_cases:
  "x = Running \<or> is_parked x \<or> is_woken x"
  by (cases x) simp_all

lemma is_parked_iff: "is_parked x = (\<exists>k. x = Parked k)"
  by (cases x) simp_all

lemma is_woken_iff: "is_woken x = (\<exists>k. x = Woken k)"
  by (cases x) simp_all

lemma wake_up_not_parked: "\<not> is_parked (wake_up x)"
  by (cases x) simp_all

lemma wake_up_Running: "(wake_up x = Running) = (x = Running)"
  by (cases x) simp_all

lemma wake_up_woken: "is_woken x \<Longrightarrow> is_woken (wake_up x)"
  by (cases x) simp_all

lemma waiting_Nil: "waiting [] = 0"
  by (simp add: waiting_def)

lemma waiting_Cons: "waiting (x # xs) = (if x = Running then 0 else 1) + waiting xs"
  by (simp add: waiting_def)

lemma waiting_le_length: "waiting ths \<le> length ths"
  by (simp add: waiting_def)

lemma waiting_update:
  "t < length ths \<Longrightarrow>
     waiting (ths[t := x]) + (if ths ! t = Running then 0 else 1)
       = waiting ths + (if x = Running then 0 else 1)"
proof (induction ths arbitrary: t)
  case Nil
  then show ?case by simp
next
  case (Cons y ys)
  show ?case
  proof (cases t)
    case 0
    then show ?thesis by (simp add: waiting_Cons)
  next
    case (Suc u)
    with Cons.prems have "u < length ys" by simp
    from Cons.IH [OF this] Suc show ?thesis by (simp add: waiting_Cons)
  qed
qed

lemma waiting_zero: "(waiting ths = 0) = list_all (\<lambda>x. x = Running) ths"
  by (induction ths) (simp_all add: waiting_Nil waiting_Cons)

lemma waiting_map_wake_up: "waiting (map wake_up ths) = waiting ths"
  by (induction ths) (simp_all add: waiting_Nil waiting_Cons wake_up_Running)

lemma set_sleepers: "set (sleepers ths) = {t. t < length ths \<and> is_parked (ths ! t)}"
  by (auto simp: sleepers_def)

lemma sleepers_empty: "(sleepers ths = []) = (\<not> list_ex is_parked ths)"
proof -
  have "(sleepers ths = []) = (set (sleepers ths) = {})" by simp
  also have "\<dots> = (\<not> (\<exists>t < length ths. is_parked (ths ! t)))"
    unfolding set_sleepers by blast
  also have "\<dots> = (\<not> list_ex is_parked ths)"
    by (simp add: list_ex_length)
  finally show ?thesis .
qed

text \<open>What \<^verbatim>\<open>notify_one\<close> does: nothing when nobody sleeps, else it wakes one sleeper.\<close>

lemma notify_one_cases:
  "(\<not> list_ex is_parked ths \<and> notify_one p ths = ths)
   \<or> (\<exists>u k. u < length ths \<and> ths ! u = Parked k \<and> notify_one p ths = ths[u := Woken k])"
proof (cases "sleepers ths")
  case Nil
  then show ?thesis by (simp add: notify_one_def sleepers_empty [symmetric])
next
  case (Cons t ts)
  define u where "u = (t # ts) ! (p mod length (t # ts))"
  have "u \<in> set (sleepers ths)"
    unfolding u_def Cons [symmetric] by (rule nth_mem) (simp add: Cons)
  then have u: "u < length ths" "is_parked (ths ! u)"
    by (simp_all add: set_sleepers)
  then obtain k where k: "ths ! u = Parked k"
    by (auto simp: is_parked_iff)
  have "notify_one p ths = ths[u := Woken k]"
    using k by (simp add: notify_one_def Cons u_def Let_def)
  with u k show ?thesis by blast
qed

lemma length_deliver: "length (deliver sg p ths) = length ths"
proof (cases sg)
  case NotifyOne
  then show ?thesis using notify_one_cases [of ths p] by auto
qed (simp_all add: notify_all_def)

lemma waiting_deliver: "waiting (deliver sg p ths) = waiting ths"
proof (cases sg)
  case NotifyOne
  from notify_one_cases [of ths p] show ?thesis
  proof (elim disjE exE conjE)
    fix u k
    assume u: "u < length ths" "ths ! u = Parked k" "notify_one p ths = ths[u := Woken k]"
    from waiting_update [OF u(1), of "Woken k"] u NotifyOne show ?thesis by simp
  qed (simp add: NotifyOne)
qed (simp_all add: notify_all_def waiting_map_wake_up)

text \<open>A notification changes no thread that is not asleep.\<close>

lemma deliver_nth:
  "t < length ths \<Longrightarrow> \<not> is_parked (ths ! t) \<Longrightarrow> deliver sg p ths ! t = ths ! t"
proof (cases sg)
  case NotifyOne
  assume t: "t < length ths" "\<not> is_parked (ths ! t)"
  from notify_one_cases [of ths p] show ?thesis
  proof (elim disjE exE conjE)
    fix u k
    assume u: "u < length ths" "ths ! u = Parked k" "notify_one p ths = ths[u := Woken k]"
    with t have "u \<noteq> t" by auto
    with u NotifyOne show ?thesis by simp
  qed (simp add: NotifyOne)
next
  case NotifyAll
  assume "t < length ths" "\<not> is_parked (ths ! t)"
  then show ?thesis
    using NotifyAll by (cases "ths ! t") (simp_all add: notify_all_def)
qed simp

text \<open>A sleeper stays asleep or is woken in the operation it sleeps in.\<close>

lemma deliver_nth_parked:
  "t < length ths \<Longrightarrow> ths ! t = Parked k \<Longrightarrow>
     deliver sg p ths ! t = Parked k \<or> deliver sg p ths ! t = Woken k"
proof (cases sg)
  case NotifyOne
  assume t: "t < length ths" "ths ! t = Parked k"
  from notify_one_cases [of ths p] show ?thesis
  proof (elim disjE exE conjE)
    fix u j
    assume u: "u < length ths" "ths ! u = Parked j" "notify_one p ths = ths[u := Woken j]"
    with t NotifyOne show ?thesis by (cases "u = t") simp_all
  qed (simp add: NotifyOne t)
qed (simp_all add: notify_all_def)

lemma deliver_keeps_woken:
  "list_ex is_woken ths \<Longrightarrow> list_ex is_woken (deliver sg p ths)"
proof -
  assume "list_ex is_woken ths"
  then obtain t where t: "t < length ths" "is_woken (ths ! t)"
    by (auto simp: list_ex_length)
  then have "\<not> is_parked (ths ! t)" by (cases "ths ! t") simp_all
  from deliver_nth [OF t(1) this, of sg p] t show ?thesis
    by (auto simp: list_ex_length length_deliver)
qed

lemma deliver_no_new_sleeper:
  "list_ex is_parked (deliver sg p ths) \<Longrightarrow> list_ex is_parked ths"
proof -
  assume "list_ex is_parked (deliver sg p ths)"
  then obtain t where t: "t < length ths" "is_parked (deliver sg p ths ! t)"
    by (auto simp: list_ex_length length_deliver)
  have "is_parked (ths ! t)"
  proof (rule ccontr)
    assume "\<not> is_parked (ths ! t)"
    from deliver_nth [OF t(1) this, of sg p] t(2) this show False by simp
  qed
  with t(1) show ?thesis by (auto simp: list_ex_length)
qed

lemma notify_one_wakes:
  "list_ex is_parked ths \<Longrightarrow> list_ex is_woken (notify_one p ths)"
  using notify_one_cases [of ths p]
  by (auto simp: list_ex_length)

lemma notify_all_no_sleeper: "\<not> list_ex is_parked (notify_all ths)"
  by (simp add: notify_all_def list_ex_iff wake_up_not_parked)


subsection \<open>The steps\<close>

lemma step_Call:
  "step w (Call t c p) s = Some s' \<Longrightarrow>
     t < length (threads s) \<and> threads s ! t = Running
     \<and> s' = s\<lparr>gate := gate_after (mutate w c (gate s)),
              threads := deliver (notified (mutate w c (gate s))) p (threads s)\<rparr>"
  by (auto simp: Let_def split: if_splits)

lemma step_Wait:
  "step w (Wait t k p) s = Some s' \<Longrightarrow>
     t < length (threads s) \<and> threads s ! t = Running
     \<and> s' = (if 0 <s counter (gate s) then go_to_sleep t k s else finish_wait w t False p s)"
  by (auto split: if_splits)

lemma step_Resume:
  "step w (Resume t p) s = Some s' \<Longrightarrow>
     \<exists>k. t < length (threads s) \<and> threads s ! t = Woken k
       \<and> (k = UntilZero \<and> 0 <s counter (gate s)
              \<and> s' = go_to_sleep t k (s\<lparr>gate := unregister_waiter (gate s)\<rparr>)
            \<or> \<not> (k = UntilZero \<and> 0 <s counter (gate s))
              \<and> s' = finish_wait w t True p (s\<lparr>gate := unregister_waiter (gate s)\<rparr>))"
  by (auto simp: Let_def unregister_waiter_def split: if_splits status.splits)

lemma step_Spurious:
  "step w (Spurious t) s = Some s' \<Longrightarrow>
     \<exists>k. t < length (threads s) \<and> threads s ! t = Parked k
       \<and> s' = s\<lparr>threads := (threads s)[t := Woken k]\<rparr>"
  by (auto split: if_splits status.splits)

lemma gate_go_to_sleep: "gate (go_to_sleep t k s) = register_waiter (gate s)"
  by (simp add: go_to_sleep_def)

lemma threads_go_to_sleep: "threads (go_to_sleep t k s) = (threads s)[t := Parked k]"
  by (simp add: go_to_sleep_def)

lemma returns_go_to_sleep: "returns (go_to_sleep t k s) = returns s"
  by (simp add: go_to_sleep_def)

lemma gate_finish_wait: "gate (finish_wait w t d p s) = gate s"
  by (simp add: finish_wait_def)

lemma threads_finish_wait:
  "threads (finish_wait w t d p s)
     = deliver (relay_signal w (gate s)) p ((threads s)[t := Running])"
  by (simp add: finish_wait_def)

lemma returns_finish_wait: "returns (finish_wait w t d p s) = returns s @ [(t, d)]"
  by (simp add: finish_wait_def)

lemma counter_register: "counter (register_waiter g) = counter g"
  by (simp add: register_waiter_def)

lemma counter_unregister: "counter (unregister_waiter g) = counter g"
  by (simp add: unregister_waiter_def)

lemma numWaiters_register: "numWaiters (register_waiter g) = numWaiters g + 1"
  by (simp add: register_waiter_def)

lemma numWaiters_unregister: "numWaiters (unregister_waiter g) = numWaiters g - 1"
  by (simp add: unregister_waiter_def)

lemmas system_simps =
  gate_go_to_sleep threads_go_to_sleep returns_go_to_sleep
  gate_finish_wait threads_finish_wait returns_finish_wait
  counter_register counter_unregister numWaiters_register numWaiters_unregister

text \<open>The number of threads does not change.\<close>

lemma length_step: "step w e s = Some s' \<Longrightarrow> length (threads s') = length (threads s)"
proof (cases e)
  case (Call t c p)
  assume "step w e s = Some s'"
  from step_Call [OF this [unfolded Call]] show ?thesis by (auto simp: length_deliver)
next
  case (Wait t k p)
  assume "step w e s = Some s'"
  from step_Wait [OF this [unfolded Wait]] show ?thesis
    by (auto simp: length_deliver system_simps)
next
  case (Resume t p)
  assume "step w e s = Some s'"
  from step_Resume [OF this [unfolded Resume]] show ?thesis
    by (auto simp: length_deliver system_simps split: if_splits)
next
  case (Spurious t)
  assume "step w e s = Some s'"
  from step_Spurious [OF this [unfolded Spurious]] show ?thesis by auto
qed

subsection \<open>\<^verbatim>\<open>numWaiters\<close> counts the waiting threads\<close>

lemma sint_of_nat_small:
  "n < 2 ^ 31 \<Longrightarrow> sint (of_nat n :: 32 word) = int n"
proof -
  assume "n < 2 ^ 31"
  then have "int n < 2 ^ 31" by (metis of_nat_less_iff of_nat_numeral of_nat_power)
  then show ?thesis
    by (simp add: signed_of_nat signed_take_bit_int_eq_self)
qed

lemma of_nat_pred: "0 < n \<Longrightarrow> (of_nat n :: 32 word) - 1 = of_nat (n - 1)"
  by (cases n) simp_all

lemma consistent_step:
  assumes "consistent s" and "step w e s = Some s'"
  shows "consistent s'"
proof -
  from assms(1) have nw: "numWaiters (gate s) = of_nat (waiting (threads s))"
    and len: "length (threads s) < 2 ^ 31"
    by (simp_all add: consistent_def)
  have len': "length (threads s') < 2 ^ 31"
    using length_step [OF assms(2)] len by simp
  have "numWaiters (gate s') = of_nat (waiting (threads s'))"
  proof (cases e)
    case (Call t c p)
    from step_Call [OF assms(2) [unfolded Call]] show ?thesis
      by (auto simp: waiting_deliver numWaiters_mutate nw)
  next
    case (Wait t k p)
    from step_Wait [OF assms(2) [unfolded Wait]]
    have t: "t < length (threads s)" "threads s ! t = Running"
      and s': "s' = (if 0 <s counter (gate s) then go_to_sleep t k s
                     else finish_wait w t False p s)"
      by simp_all
    from waiting_update [OF t(1), of "Parked k"] waiting_update [OF t(1), of Running] t(2)
    show ?thesis by (simp add: s' system_simps waiting_deliver nw)
  next
    case (Resume t p)
    from step_Resume [OF assms(2) [unfolded Resume]]
    obtain k where t: "t < length (threads s)" "threads s ! t = Woken k"
      and s': "k = UntilZero \<and> 0 <s counter (gate s)
                 \<and> s' = go_to_sleep t k (s\<lparr>gate := unregister_waiter (gate s)\<rparr>)
               \<or> \<not> (k = UntilZero \<and> 0 <s counter (gate s))
                 \<and> s' = finish_wait w t True p (s\<lparr>gate := unregister_waiter (gate s)\<rparr>)"
      by blast
    from waiting_update [OF t(1), of "Parked k"] t(2)
    have park: "waiting ((threads s)[t := Parked k]) = waiting (threads s)" by simp
    from waiting_update [OF t(1), of Running] t(2)
    have run: "waiting (threads s) = Suc (waiting ((threads s)[t := Running]))" by simp
    from s' show ?thesis
    proof (elim disjE conjE)
      assume "s' = go_to_sleep t k (s\<lparr>gate := unregister_waiter (gate s)\<rparr>)"
      then show ?thesis by (simp add: system_simps nw park)
    next
      assume "s' = finish_wait w t True p (s\<lparr>gate := unregister_waiter (gate s)\<rparr>)"
      then show ?thesis by (simp add: system_simps waiting_deliver nw run)
    qed
  next
    case (Spurious t)
    from step_Spurious [OF assms(2) [unfolded Spurious]]
    obtain k where t: "t < length (threads s)" "threads s ! t = Parked k"
      and s': "s' = s\<lparr>threads := (threads s)[t := Woken k]\<rparr>"
      by blast
    from waiting_update [OF t(1), of "Woken k"] t(2) show ?thesis
      by (simp add: s' nw)
  qed
  with len' show ?thesis by (simp add: consistent_def)
qed

lemma consistent_run:
  "consistent s \<Longrightarrow> run w es s = Some s' \<Longrightarrow> consistent s'"
proof (induction es arbitrary: s)
  case Nil
  then show ?case by simp
next
  case (Cons e es)
  from Cons.prems(2) obtain s1 where s1: "step w e s = Some s1" "run w es s1 = Some s'"
    by (auto split: option.splits)
  from Cons.IH [OF consistent_step [OF Cons.prems(1) s1(1)] s1(2)] show ?case .
qed

lemma consistent_start: "n < 2 ^ 31 \<Longrightarrow> consistent (start n)"
  by (simp add: consistent_def start_def TLCounter_new_def waiting_def)

lemma consistent_sint:
  assumes "consistent s"
  shows "sint (numWaiters (gate s)) = int (waiting (threads s))"
proof -
  from assms have "waiting (threads s) < 2 ^ 31"
    using waiting_le_length [of "threads s"] by (simp add: consistent_def)
  from sint_of_nat_small [OF this] assms show ?thesis by (simp add: consistent_def)
qed


subsection \<open>The wake chain\<close>

lemma parked_waiting: "list_ex is_parked ths \<Longrightarrow> 0 < waiting ths"
proof (rule ccontr)
  assume p: "list_ex is_parked ths" and "\<not> 0 < waiting ths"
  then have "list_all (\<lambda>x. x = Running) ths" by (simp add: waiting_zero)
  with p show False by (auto simp: list_ex_iff list_all_iff)
qed

lemma relay_signal_waiting:
  assumes "numWaiters g = of_nat n" and "0 < n" and "n < 2 ^ 31"
  shows "relay_signal True g = NotifyOne"
  using assms sint_of_nat_small [of n] by (simp add: relay_signal_def word_sless_alt)

lemma update_Running_keeps_parked:
  "list_ex is_parked (ths[t := Running]) \<Longrightarrow> list_ex is_parked ths"
proof -
  assume "list_ex is_parked (ths[t := Running])"
  then obtain n where n: "n < length ths" "is_parked (ths[t := Running] ! n)"
    by (auto simp: list_ex_length)
  then have "n \<noteq> t" by (auto simp: nth_list_update)
  with n show ?thesis by (auto simp: list_ex_length)
qed

lemma update_Woken_woken:
  "t < length ths \<Longrightarrow> list_ex is_woken (ths[t := Woken k])"
  by (auto simp: list_ex_length intro!: exI [of _ t])

text \<open>
  A step that does not drain silently keeps the wake chain going, in a system whose
  \<^verbatim>\<open>numWaiters\<close> counts the waiting threads.
\<close>

lemma no_stall_step:
  assumes con: "consistent s" and ns: "no_stall w s"
    and st: "step w e s = Some s'" and sig: "\<not> drains_silently w e s"
  shows "no_stall w s'"
  unfolding no_stall_def
proof (intro impI, elim conjE)
  assume drained: "counter (gate s') \<le>s 0" and parked: "list_ex is_parked (threads s')"
  show "w \<and> list_ex is_woken (threads s')"
  proof (cases e)
    case (Call t c p)
    from step_Call [OF st [unfolded Call]]
    have s': "s' = s\<lparr>gate := gate_after (mutate w c (gate s)),
                     threads := deliver (notified (mutate w c (gate s))) p (threads s)\<rparr>"
      by simp
    from parked have before: "list_ex is_parked (threads s)"
      by (auto simp: s' dest: deliver_no_new_sleeper)
    show ?thesis
    proof (cases "notified (mutate w c (gate s))")
      case NoWake
      with sig drained have "counter (gate s) \<le>s 0"
        by (simp add: Call s' signed.not_less)
      with ns before have "w" "list_ex is_woken (threads s)" by (simp_all add: no_stall_def)
      then show ?thesis by (simp add: s' deliver_keeps_woken)
    next
      case NotifyOne
      then have "w" by (cases c) (auto simp: Increment_def Decrement_def Add_def Subtract_def
            Let_def wake_waiters_def split: if_splits)
      moreover have "threads s' = notify_one p (threads s)" by (simp add: s' NotifyOne)
      ultimately show ?thesis using before by (simp add: notify_one_wakes)
    next
      case NotifyAll
      then have "threads s' = notify_all (threads s)" by (simp add: s')
      with parked show ?thesis by (simp add: notify_all_no_sleeper)
    qed
  next
    case (Wait t k p)
    from step_Wait [OF st [unfolded Wait]]
    have t: "t < length (threads s)" "threads s ! t = Running"
      and s': "s' = (if 0 <s counter (gate s) then go_to_sleep t k s
                     else finish_wait w t False p s)"
      by simp_all
    from drained have low: "counter (gate s) \<le>s 0"
      by (simp add: s' system_simps split: if_splits)
    then have s'': "s' = finish_wait w t False p s"
      by (simp add: s' signed.not_less [symmetric])
    have same: "(threads s)[t := Running] = threads s"
      using t by (simp add: list_update_same_conv)
    from parked have "list_ex is_parked (threads s)"
      by (auto simp: s'' system_simps same dest: deliver_no_new_sleeper)
    with ns low have "w" "list_ex is_woken (threads s)" by (simp_all add: no_stall_def)
    then show ?thesis by (simp add: s'' system_simps same deliver_keeps_woken)
  next
    case (Resume t p)
    from step_Resume [OF st [unfolded Resume]]
    obtain k where t: "t < length (threads s)" "threads s ! t = Woken k"
      and s': "k = UntilZero \<and> 0 <s counter (gate s)
                 \<and> s' = go_to_sleep t k (s\<lparr>gate := unregister_waiter (gate s)\<rparr>)
               \<or> \<not> (k = UntilZero \<and> 0 <s counter (gate s))
                 \<and> s' = finish_wait w t True p (s\<lparr>gate := unregister_waiter (gate s)\<rparr>)"
      by blast
    from s' show ?thesis
    proof (elim disjE conjE)
      assume "0 <s counter (gate s)"
        and "s' = go_to_sleep t k (s\<lparr>gate := unregister_waiter (gate s)\<rparr>)"
      with drained show ?thesis by (simp add: system_simps signed.not_less [symmetric])
    next
      assume fin: "s' = finish_wait w t True p (s\<lparr>gate := unregister_waiter (gate s)\<rparr>)"
      let ?rest = "(threads s)[t := Running]"
      from drained have low: "counter (gate s) \<le>s 0" by (simp add: fin system_simps)
      from parked have rest: "list_ex is_parked ?rest"
        by (auto simp: fin system_simps dest: deliver_no_new_sleeper)
      then have "list_ex is_parked (threads s)" by (rule update_Running_keeps_parked)
      with ns low have w: "w" by (simp add: no_stall_def)
      from con have nw: "numWaiters (gate s) = of_nat (waiting (threads s))"
        and len: "length (threads s) < 2 ^ 31"
        by (simp_all add: consistent_def)
      from waiting_update [OF t(1), of Running] t(2)
      have run: "waiting (threads s) = Suc (waiting ?rest)" by simp
      have "numWaiters (unregister_waiter (gate s)) = of_nat (waiting ?rest)"
        by (simp add: system_simps nw run)
      moreover have "0 < waiting ?rest" using rest by (rule parked_waiting)
      moreover have "waiting ?rest < 2 ^ 31"
        using waiting_le_length [of ?rest] len by simp
      ultimately have "relay_signal True (unregister_waiter (gate s)) = NotifyOne"
        by (rule relay_signal_waiting)
      with w have "threads s' = notify_one p ?rest" by (simp add: fin system_simps)
      with w rest show ?thesis by (simp add: notify_one_wakes)
    qed
  next
    case (Spurious t)
    from step_Spurious [OF st [unfolded Spurious]]
    obtain k where t: "t < length (threads s)" "threads s ! t = Parked k"
      and s': "s' = s\<lparr>threads := (threads s)[t := Woken k]\<rparr>"
      by blast
    from t have "list_ex is_parked (threads s)"
      by (auto simp: list_ex_length intro!: exI [of _ t])
    with ns drained have "w" by (simp add: no_stall_def s')
    with t(1) show ?thesis by (simp add: s' update_Woken_woken)
  qed
qed

text \<open>
  \<^verbatim>\<open>Decrement\<close> and \<^verbatim>\<open>Subtract\<close> never drain silently: when they leave the counter at
  zero or below they signal. So the only silent drains are those of \<^verbatim>\<open>Increment\<close> and
  \<^verbatim>\<open>Add\<close>.
\<close>

lemma Decrement_signals:
  "counter (gate_after (Decrement w g)) \<le>s 0 \<Longrightarrow> notified (Decrement w g) = wake_waiters w"
  by (simp add: Decrement_def Let_def)

lemma Subtract_signals:
  "counter (gate_after (Subtract w n g)) \<le>s 0 \<Longrightarrow> notified (Subtract w n g) = wake_waiters w"
  by (simp add: Subtract_def Let_def)

lemma wake_waiters_signals: "wake_waiters w \<noteq> NoWake"
  by (simp add: wake_waiters_def)

lemma Decrement_never_drains_silently:
  "\<not> drains_silently w (Call t CallDecrement p) s"
  using Decrement_signals [of w "gate s"] by (auto simp: wake_waiters_signals)

lemma Subtract_never_drains_silently:
  "\<not> drains_silently w (Call t (CallSubtract n) p) s"
  using Subtract_signals [of w n "gate s"] by (auto simp: wake_waiters_signals)

lemma silent_drain_adds:
  assumes "drains_silently w e s"
  shows "adds_to_drain e s"
proof (cases e)
  case (Call t c p)
  show ?thesis
  proof (cases c)
    case CallIncrement
    with assms Call show ?thesis by simp
  next
    case CallDecrement
    with assms Call Decrement_never_drains_silently [of w t p s] show ?thesis by simp
  next
    case (CallAdd n)
    with assms Call show ?thesis by simp
  next
    case (CallSubtract n)
    with assms Call Subtract_never_drains_silently [of w t n p s] show ?thesis by simp
  qed
qed (use assms in simp_all)

text \<open>A schedule whose mutating calls are all \<^verbatim>\<open>Decrement\<close> or \<^verbatim>\<open>Subtract\<close> never adds to drain.\<close>

lemma subtracting_never_adds_to_drain:
  "\<forall>c \<in> set (calls_of es). c = CallDecrement \<or> (\<exists>n. c = CallSubtract n) \<Longrightarrow>
     never_adds_to_drain w es s"
proof (induction es arbitrary: s)
  case Nil
  show ?case by simp
next
  case (Cons e es)
  have "\<not> adds_to_drain e s" for s
  proof (cases e)
    case (Call t c p)
    with Cons.prems have "c = CallDecrement \<or> (\<exists>n. c = CallSubtract n)" by simp
    with Call show ?thesis by auto
  qed simp_all
  moreover have "\<forall>c \<in> set (calls_of es). c = CallDecrement \<or> (\<exists>n. c = CallSubtract n)"
    using Cons.prems by (cases e) simp_all
  ultimately show ?case using Cons.IH by (auto split: option.splits)
qed

lemma invariants_run:
  "consistent s \<Longrightarrow> no_stall w s \<Longrightarrow> never_adds_to_drain w es s \<Longrightarrow>
     run w es s = Some s' \<Longrightarrow> consistent s' \<and> no_stall w s'"
proof (induction es arbitrary: s)
  case Nil
  then show ?case by simp
next
  case (Cons e es)
  from Cons.prems(4) obtain s1 where s1: "step w e s = Some s1" "run w es s1 = Some s'"
    by (auto split: option.splits)
  from Cons.prems(3) s1(1) have "\<not> adds_to_drain e s" and sig2: "never_adds_to_drain w es s1"
    by simp_all
  then have sig1: "\<not> drains_silently w e s" using silent_drain_adds by blast
  from Cons.IH [OF consistent_step [OF Cons.prems(1) s1(1)]
      no_stall_step [OF Cons.prems(1,2) s1(1) sig1] sig2 s1(2)]
  show ?case .
qed

lemma no_stall_start: "no_stall w (start n)"
  by (simp add: no_stall_def start_def list_ex_iff)

text \<open>Both hold in every state reached from a fresh counter by a schedule that never adds to drain.\<close>

lemma invariants_reachable:
  "n < 2 ^ 31 \<Longrightarrow> never_adds_to_drain w es (start n) \<Longrightarrow> run w es (start n) = Some s \<Longrightarrow>
     consistent s \<and> no_stall w s"
  by (rule invariants_run [OF consistent_start no_stall_start])

text \<open>With the counter at zero or below and no woken thread left, nobody waits.\<close>

lemma quiescent_all_running:
  assumes "no_stall w s" and "counter (gate s) \<le>s 0" and "\<not> list_ex is_woken (threads s)"
  shows "list_all (\<lambda>x. x = Running) (threads s)"
proof -
  from assms have "\<not> list_ex is_parked (threads s)" by (auto simp: no_stall_def)
  with assms(3) show ?thesis
    using status_cases by (auto simp: list_all_iff list_ex_iff)
qed


subsection \<open>The counter and the returned values along a schedule\<close>

lemma counter_step:
  "step w e s = Some s' \<Longrightarrow>
     counter (gate s') = counter (gate s) + net_delta (calls_of [e])"
proof (cases e)
  case (Call t c p)
  assume "step w e s = Some s'"
  from step_Call [OF this [unfolded Call]] show ?thesis
    by (simp add: Call counter_mutate net_delta_Cons net_delta_Nil)
next
  case (Wait t k p)
  assume "step w e s = Some s'"
  from step_Wait [OF this [unfolded Wait]] show ?thesis
    by (simp add: Wait system_simps net_delta_Nil)
next
  case (Resume t p)
  assume "step w e s = Some s'"
  from step_Resume [OF this [unfolded Resume]] show ?thesis
    by (auto simp: Resume system_simps net_delta_Nil)
next
  case (Spurious t)
  assume "step w e s = Some s'"
  from step_Spurious [OF this [unfolded Spurious]] show ?thesis
    by (auto simp: Spurious net_delta_Nil)
qed

lemma calls_of_Cons: "calls_of (e # es) = calls_of [e] @ calls_of es"
  by (cases e) simp_all

lemma counter_run:
  "run w es s = Some s' \<Longrightarrow>
     counter (gate s') = counter (gate s) + net_delta (calls_of es)"
proof (induction es arbitrary: s)
  case Nil
  then show ?case by (simp add: net_delta_Nil)
next
  case (Cons e es)
  from Cons.prems obtain s1 where s1: "step w e s = Some s1" "run w es s1 = Some s'"
    by (auto split: option.splits)
  have "net_delta (calls_of (e # es)) = net_delta (calls_of [e]) + net_delta (calls_of es)"
    by (subst calls_of_Cons) (simp add: net_delta_append)
  with Cons.IH [OF s1(2)] counter_step [OF s1(1)] show ?case by simp
qed

lemma run_append:
  "run w es s = Some s1 \<Longrightarrow> run w rs s1 = Some s' \<Longrightarrow> run w (es @ rs) s = Some s'"
  by (induction es arbitrary: s) (auto split: option.splits)

lemma length_run: "run w es s = Some s' \<Longrightarrow> length (threads s') = length (threads s)"
proof (induction es arbitrary: s)
  case Nil
  then show ?case by simp
next
  case (Cons e es)
  from Cons.prems obtain s1 where s1: "step w e s = Some s1" "run w es s1 = Some s'"
    by (auto split: option.splits)
  from Cons.IH [OF s1(2)] length_step [OF s1(1)] show ?case by simp
qed

lemma returns_step: "step w e s = Some s' \<Longrightarrow> \<exists>xs. returns s' = returns s @ xs"
proof (cases e)
  case (Call t c p)
  assume "step w e s = Some s'"
  from step_Call [OF this [unfolded Call]] show ?thesis by simp
next
  case (Wait t k p)
  assume "step w e s = Some s'"
  from step_Wait [OF this [unfolded Wait]] show ?thesis by (simp add: system_simps)
next
  case (Resume t p)
  assume "step w e s = Some s'"
  from step_Resume [OF this [unfolded Resume]] show ?thesis by (auto simp: system_simps)
next
  case (Spurious t)
  assume "step w e s = Some s'"
  from step_Spurious [OF this [unfolded Spurious]] show ?thesis by auto
qed

lemma returns_run: "run w es s = Some s' \<Longrightarrow> \<exists>xs. returns s' = returns s @ xs"
proof (induction es arbitrary: s)
  case Nil
  then show ?case by simp
next
  case (Cons e es)
  from Cons.prems obtain s1 where s1: "step w e s = Some s1" "run w es s1 = Some s'"
    by (auto split: option.splits)
  from Cons.IH [OF s1(2)] returns_step [OF s1(1)] show ?case by auto
qed

lemma deliver_Running:
  assumes "t < length ths"
  shows "(deliver sg p ths ! t = Running) = (ths ! t = Running)"
proof (cases "ths ! t")
  case Running
  with deliver_nth [OF assms, of sg p] show ?thesis by simp
next
  case (Parked k)
  with deliver_nth_parked [OF assms, of k sg p] show ?thesis by auto
next
  case (Woken k)
  with deliver_nth [OF assms, of sg p] show ?thesis by simp
qed

text \<open>A waiting thread gets out of its operation only by returning true from it.\<close>

lemma step_becomes_Running:
  assumes st: "step w e s = Some s'" and t: "t < length (threads s)"
    and before: "threads s ! t \<noteq> Running" and after: "threads s' ! t = Running"
  shows "returns s' = returns s @ [(t, True)]"
proof (cases e)
  case (Call u c p)
  from step_Call [OF st [unfolded Call]] after before t show ?thesis
    by (simp add: deliver_Running)
next
  case (Wait u k p)
  from step_Wait [OF st [unfolded Wait]]
  have u: "u < length (threads s)" "threads s ! u = Running"
    and s': "s' = (if 0 <s counter (gate s) then go_to_sleep u k s
                   else finish_wait w u False p s)"
    by simp_all
  from u before have "u \<noteq> t" by auto
  with after before t show ?thesis
    by (simp add: s' system_simps deliver_Running split: if_splits)
next
  case (Resume u p)
  from step_Resume [OF st [unfolded Resume]]
  obtain k where u: "u < length (threads s)" "threads s ! u = Woken k"
    and s': "k = UntilZero \<and> 0 <s counter (gate s)
               \<and> s' = go_to_sleep u k (s\<lparr>gate := unregister_waiter (gate s)\<rparr>)
             \<or> \<not> (k = UntilZero \<and> 0 <s counter (gate s))
               \<and> s' = finish_wait w u True p (s\<lparr>gate := unregister_waiter (gate s)\<rparr>)"
    by blast
  from s' show ?thesis
  proof (elim disjE conjE)
    assume "s' = go_to_sleep u k (s\<lparr>gate := unregister_waiter (gate s)\<rparr>)"
    with after before t show ?thesis
      by (cases "u = t") (simp_all add: system_simps)
  next
    assume fin: "s' = finish_wait w u True p (s\<lparr>gate := unregister_waiter (gate s)\<rparr>)"
    show ?thesis
    proof (cases "u = t")
      case True
      then show ?thesis by (simp add: fin system_simps)
    next
      case False
      with after before t show ?thesis by (simp add: fin system_simps deliver_Running)
    qed
  qed
next
  case (Spurious u)
  from step_Spurious [OF st [unfolded Spurious]] after before t show ?thesis
    by (auto simp: nth_list_update split: if_splits)
qed

lemma returned_since:
  "run w es s = Some s' \<Longrightarrow> t < length (threads s) \<Longrightarrow> threads s ! t \<noteq> Running \<Longrightarrow>
     threads s' ! t = Running \<Longrightarrow> (t, True) \<in> set (drop (length (returns s)) (returns s'))"
proof (induction es arbitrary: s)
  case Nil
  then show ?case by simp
next
  case (Cons e es)
  from Cons.prems(1) obtain s1 where s1: "step w e s = Some s1" "run w es s1 = Some s'"
    by (auto split: option.splits)
  from returns_step [OF s1(1)] obtain xs where xs: "returns s1 = returns s @ xs" by blast
  from returns_run [OF s1(2)] obtain ys where ys: "returns s' = returns s1 @ ys" by blast
  have t1: "t < length (threads s1)" using length_step [OF s1(1)] Cons.prems(2) by simp
  show ?case
  proof (cases "threads s1 ! t = Running")
    case True
    from step_becomes_Running [OF s1(1) Cons.prems(2,3) True]
    show ?thesis by (simp add: ys)
  next
    case False
    from Cons.IH [OF s1(2) t1 False Cons.prems(4)]
    show ?thesis by (simp add: ys xs)
  qed
qed

subsection \<open>Draining\<close>

lemma resume_drained:
  assumes "t < length (threads s)" and "threads s ! t = Woken k"
    and "counter (gate s) \<le>s 0"
  shows "step w (Resume t p) s
           = Some (finish_wait w t True p (s\<lparr>gate := unregister_waiter (gate s)\<rparr>))"
  using assms by (simp add: Let_def system_simps signed.not_less [symmetric])

lemma waiting_after_finish:
  assumes "t < length (threads s)" and "threads s ! t = Woken k"
  shows "Suc (waiting (threads (finish_wait w t d p (s\<lparr>gate := g\<rparr>)))) = waiting (threads s)"
  using waiting_update [OF assms(1), of Running] assms(2)
  by (simp add: system_simps waiting_deliver)

lemma running_after_finish:
  assumes "t < length (threads s)"
  shows "threads (finish_wait w t d p (s\<lparr>gate := g\<rparr>)) ! t = Running"
  using assms by (simp add: system_simps deliver_Running)

lemma some_woken:
  assumes "no_stall w s" and "counter (gate s) \<le>s 0" and "0 < waiting (threads s)"
  shows "\<exists>t k. t < length (threads s) \<and> threads s ! t = Woken k"
proof -
  have "list_ex is_woken (threads s)"
  proof (rule ccontr)
    assume "\<not> list_ex is_woken (threads s)"
    from quiescent_all_running [OF assms(1,2) this] assms(3) show False
      by (simp add: waiting_zero [symmetric])
  qed
  then show ?thesis by (auto simp: list_ex_length is_woken_iff)
qed

text \<open>
  With the counter at zero or below, the waiting threads can all be resumed, one after the
  other; each resumed thread returns at once, and nothing but these resumptions is needed.
\<close>

lemma drain_schedule:
  "consistent s \<Longrightarrow> no_stall w s \<Longrightarrow> counter (gate s) \<le>s 0 \<Longrightarrow> waiting (threads s) = n \<Longrightarrow>
     \<exists>rs s'. list_all is_resume rs \<and> length rs = n \<and> run w rs s = Some s'
        \<and> list_all (\<lambda>x. x = Running) (threads s')"
proof (induction n arbitrary: s)
  case 0
  then have "list_all (\<lambda>x. x = Running) (threads s)" by (simp add: waiting_zero)
  then have "list_all is_resume [] \<and> length ([] :: event list) = 0 \<and> run w [] s = Some s
      \<and> list_all (\<lambda>x. x = Running) (threads s)"
    by simp
  then show ?case by blast
next
  case (Suc n)
  from some_woken [OF Suc.prems(2,3)] Suc.prems(4)
  obtain t k where t: "t < length (threads s)" "threads s ! t = Woken k" by auto
  define s1 where "s1 = finish_wait w t True 0 (s\<lparr>gate := unregister_waiter (gate s)\<rparr>)"
  have st: "step w (Resume t 0) s = Some s1"
    unfolding s1_def by (rule resume_drained [OF t Suc.prems(3)])
  have con: "consistent s1" by (rule consistent_step [OF Suc.prems(1) st])
  have ns: "no_stall w s1" by (rule no_stall_step [OF Suc.prems(1,2) st]) simp
  have low: "counter (gate s1) \<le>s 0"
    using Suc.prems(3) by (simp add: s1_def system_simps)
  have n: "waiting (threads s1) = n"
    using waiting_after_finish [OF t, of w True 0 "unregister_waiter (gate s)"] Suc.prems(4)
    by (simp add: s1_def)
  from Suc.IH [OF con ns low n]
  obtain rs s' where rs: "list_all is_resume rs" "length rs = n" "run w rs s1 = Some s'"
    "list_all (\<lambda>x. x = Running) (threads s')"
    by blast
  then have "list_all is_resume (Resume t 0 # rs) \<and> length (Resume t 0 # rs) = Suc n
      \<and> run w (Resume t 0 # rs) s = Some s' \<and> list_all (\<lambda>x. x = Running) (threads s')"
    using st by simp
  then show ?case by blast
qed


text \<open>
  While the counter stays at zero or below nobody goes to sleep, and every resumption
  takes one thread out of its waiting operation.
\<close>

lemma waiting_step_drained:
  assumes "step w e s = Some s'" and "counter (gate s) \<le>s 0"
  shows "waiting (threads s') + (if is_resume e then 1 else 0) = waiting (threads s)"
proof (cases e)
  case (Call t c p)
  from step_Call [OF assms(1) [unfolded Call]] show ?thesis
    by (simp add: Call waiting_deliver)
next
  case (Wait t k p)
  from step_Wait [OF assms(1) [unfolded Wait]] assms(2)
  have t: "t < length (threads s)" "threads s ! t = Running"
    and s': "s' = finish_wait w t False p s"
    by (simp_all add: signed.not_less [symmetric])
  from t have "(threads s)[t := Running] = threads s"
    by (simp add: list_update_same_conv)
  then show ?thesis by (simp add: Wait s' system_simps waiting_deliver)
next
  case (Resume t p)
  from step_Resume [OF assms(1) [unfolded Resume]] assms(2)
  obtain k where t: "t < length (threads s)" "threads s ! t = Woken k"
    and s': "s' = finish_wait w t True p (s\<lparr>gate := unregister_waiter (gate s)\<rparr>)"
    by (auto simp: signed.not_less [symmetric])
  from waiting_after_finish [OF t, of w True p "unregister_waiter (gate s)"]
  show ?thesis by (simp add: Resume s')
next
  case (Spurious t)
  from step_Spurious [OF assms(1) [unfolded Spurious]]
  obtain k where t: "t < length (threads s)" "threads s ! t = Parked k"
    and s': "s' = s\<lparr>threads := (threads s)[t := Woken k]\<rparr>"
    by blast
  from waiting_update [OF t(1), of "Woken k"] t(2) show ?thesis
    by (simp add: Spurious s')
qed

lemma waiting_run_drained:
  "stays_drained w rs s \<Longrightarrow> run w rs s = Some s' \<Longrightarrow>
     waiting (threads s') + length (filter is_resume rs) = waiting (threads s)"
proof (induction rs arbitrary: s)
  case Nil
  then show ?case by simp
next
  case (Cons e rs)
  from Cons.prems(2) obtain s1 where s1: "step w e s = Some s1" "run w rs s1 = Some s'"
    by (auto split: option.splits)
  from Cons.prems(1) s1(1) have low: "counter (gate s) \<le>s 0" and rest: "stays_drained w rs s1"
    by simp_all
  from Cons.IH [OF rest s1(2)] waiting_step_drained [OF s1(1) low]
  show ?case by (cases "is_resume e") simp_all
qed

subsection \<open>The two views of a waiting operation agree\<close>

text \<open>
  A step of the system is the call, or the rest of the call after a wake-up, run up to
  the next wait: it returns what the operation returns when no further wake-up is needed,
  and it leaves the thread asleep where the operation would wait.
\<close>

lemma Wait_UntilZero_agrees:
  assumes "t < length (threads s)" and "threads s ! t = Running"
  shows "step w (Wait t UntilZero p) s =
           Some (case WaitUntilZero w (gate s) [] of
                   None \<Rightarrow> go_to_sleep t UntilZero s
                 | Some r \<Rightarrow> s\<lparr>gate := gate_exit r,
                               threads := deliver (relay r) p (threads s),
                               returns := returns s @ [(t, didWait r)]\<rparr>)"
proof -
  from assms have "(threads s)[t := Running] = threads s"
    by (simp add: list_update_same_conv)
  with assms show ?thesis
    by (simp add: WaitUntilZero_def wait_exit_def finish_wait_def)
qed

lemma Wait_OneWakeup_agrees:
  assumes "t < length (threads s)" and "threads s ! t = Running"
  shows "step w (Wait t OneWakeup p) s =
           Some (case WaitOneWakeup w (gate s) [] of
                   None \<Rightarrow> go_to_sleep t OneWakeup s
                 | Some r \<Rightarrow> s\<lparr>gate := gate_exit r,
                               threads := deliver (relay r) p (threads s),
                               returns := returns s @ [(t, didWait r)]\<rparr>)"
proof -
  from assms have "(threads s)[t := Running] = threads s"
    by (simp add: list_update_same_conv)
  with assms show ?thesis
    by (simp add: WaitOneWakeup_def wait_exit_def finish_wait_def)
qed

lemma Resume_UntilZero_agrees:
  assumes "t < length (threads s)" and "threads s ! t = Woken UntilZero"
  shows "step w (Resume t p) s =
           Some (case WaitUntilZero_loop w True n (unregister_waiter (gate s)) [] of
                   None \<Rightarrow> go_to_sleep t UntilZero (s\<lparr>gate := unregister_waiter (gate s)\<rparr>)
                 | Some r \<Rightarrow> s\<lparr>gate := gate_exit r,
                               threads := deliver (relay r) p ((threads s)[t := Running]),
                               returns := returns s @ [(t, didWait r)]\<rparr>)"
  using assms by (simp add: Let_def wait_exit_def finish_wait_def counter_unregister)

subsection \<open>Schedulers that never stop\<close>

lemma run_append_eq:
  "run w (xs @ ys) s = (case run w xs s of None \<Rightarrow> None | Some s1 \<Rightarrow> run w ys s1)"
  by (induction xs arbitrary: s) (auto split: option.splits)

lemma run_snoc:
  "run w (xs @ [e]) s = (case run w xs s of None \<Rightarrow> None | Some s1 \<Rightarrow> step w e s1)"
  by (induction xs arbitrary: s) (auto split: option.splits)

lemma never_adds_append:
  "never_adds_to_drain w (xs @ ys) s \<Longrightarrow> run w xs s = Some s1 \<Longrightarrow> never_adds_to_drain w xs s \<and> never_adds_to_drain w ys s1"
  by (induction xs arbitrary: s) (auto split: option.splits)

lemma prefix_of_0: "prefix_of sched 0 = []"
  by (simp add: prefix_of_def)

lemma prefix_of_Suc: "prefix_of sched (Suc i) = prefix_of sched i @ [sched i]"
  by (simp add: prefix_of_def)

lemma prefix_of_add:
  "prefix_of sched (j + i) = prefix_of sched j @ prefix_of (\<lambda>k. sched (j + k)) i"
  by (induction i) (simp_all add: prefix_of_0 prefix_of_Suc)

lemma never_adds_snoc:
  "never_adds_to_drain w (xs @ [e]) s =
     (never_adds_to_drain w xs s \<and>
      (case run w xs s of None \<Rightarrow> True | Some sx \<Rightarrow> \<not> adds_to_drain e sx))"
  by (induction xs arbitrary: s) (auto split: option.splits)

text \<open>The scheduler seen from the state it has reached after \<open>j\<close> steps.\<close>

lemma run_shift:
  "run w (prefix_of sched j) s = Some sj \<Longrightarrow>
     run w (prefix_of sched (j + i)) s = run w (prefix_of (\<lambda>k. sched (j + k)) i) sj"
  by (simp only: prefix_of_add run_append_eq option.case)

lemma never_adds_shift:
  assumes "\<forall>i. never_adds_to_drain w (prefix_of sched i) s" and "run w (prefix_of sched j) s = Some sj"
  shows "\<forall>i. never_adds_to_drain w (prefix_of (\<lambda>k. sched (j + k)) i) sj"
proof
  fix i
  from assms(1) have "never_adds_to_drain w (prefix_of sched j @ prefix_of (\<lambda>k. sched (j + k)) i) s"
    by (simp only: prefix_of_add [symmetric])
  from never_adds_append [OF this assms(2)]
  show "never_adds_to_drain w (prefix_of (\<lambda>k. sched (j + k)) i) sj" by simp
qed

lemma fair_shift:
  assumes "fair w sched s" and "run w (prefix_of sched j) s = Some sj"
  shows "fair w (\<lambda>k. sched (j + k)) sj"
  unfolding fair_def
proof (intro allI impI, elim conjE)
  fix i s' u
  assume r: "run w (prefix_of (\<lambda>k. sched (j + k)) i) sj = Some s'"
    and u: "u < length (threads s')" "is_woken (threads s' ! u)"
  from r have "run w (prefix_of sched (j + i)) s = Some s'"
    by (simp only: run_shift [OF assms(2)])
  with assms(1) u obtain j' q where "j + i \<le> j'" "sched j' = Resume u q"
    unfolding fair_def by blast
  then have "i \<le> j' - j \<and> sched (j + (j' - j)) = Resume u q" by simp
  then show "\<exists>j' q. i \<le> j' \<and> sched (j + j') = Resume u q" by blast
qed

text \<open>A woken thread stays woken until it is resumed.\<close>

lemma woken_stays_step:
  assumes st: "step w e s = Some s'" and t: "t < length (threads s)"
    and wk: "threads s ! t = Woken k" and other: "\<forall>p. e \<noteq> Resume t p"
  shows "threads s' ! t = Woken k"
proof (cases e)
  case (Call u c p)
  from step_Call [OF st [unfolded Call]] t wk show ?thesis by (simp add: deliver_nth)
next
  case (Wait u j p)
  from step_Wait [OF st [unfolded Wait]]
  have u: "u < length (threads s)" "threads s ! u = Running"
    and s': "s' = (if 0 <s counter (gate s) then go_to_sleep u j s
                   else finish_wait w u False p s)"
    by simp_all
  from u wk have "u \<noteq> t" by auto
  with t wk show ?thesis by (simp add: s' system_simps deliver_nth)
next
  case (Resume u p)
  with other have ne: "u \<noteq> t" by auto
  from step_Resume [OF st [unfolded Resume]] ne t wk show ?thesis
    by (auto simp: system_simps deliver_nth)
next
  case (Spurious u)
  from step_Spurious [OF st [unfolded Spurious]] t wk show ?thesis
    by (auto simp: nth_list_update)
qed

lemma woken_stays_run:
  "run w (prefix_of sched j) s = Some s' \<Longrightarrow> t < length (threads s) \<Longrightarrow>
     threads s ! t = Woken k \<Longrightarrow> \<forall>i < j. \<forall>p. sched i \<noteq> Resume t p \<Longrightarrow>
     threads s' ! t = Woken k"
proof (induction j arbitrary: s')
  case 0
  then show ?case by (simp add: prefix_of_0)
next
  case (Suc j)
  from Suc.prems(1) obtain s1 where s1: "run w (prefix_of sched j) s = Some s1"
    "step w (sched j) s1 = Some s'"
    by (auto simp: prefix_of_Suc run_snoc split: option.splits)
  from Suc.IH [OF s1(1) Suc.prems(2,3)] Suc.prems(4)
  have wk: "threads s1 ! t = Woken k" by simp
  have len: "t < length (threads s1)" using length_run [OF s1(1)] Suc.prems(2) by simp
  from Suc.prems(4) have "\<forall>p. sched j \<noteq> Resume t p" by simp
  from woken_stays_step [OF s1(2) len wk this] show ?case .
qed

text \<open>
  Liveness. The scheduler never stops and is fair to the woken threads, the counter gets
  to zero or below only with a signal, and it is at zero or below from the beginning on.
  Then after some number of steps every thread is outside the waiting operations.
\<close>

lemma stays_drained_snoc:
  "stays_drained w xs s \<Longrightarrow> run w xs s = Some sx \<Longrightarrow>
     \<forall>sy. step w e sx = Some sy \<longrightarrow> counter (gate sy) \<le>s 0 \<Longrightarrow>
     stays_drained w (xs @ [e]) s"
  by (induction xs arbitrary: s) (auto split: option.splits)

lemma stays_drained_prefix:
  assumes valid: "\<forall>i. run w (prefix_of sched i) s \<noteq> None"
    and low: "\<forall>i s'. run w (prefix_of sched i) s = Some s' \<longrightarrow> counter (gate s') \<le>s 0"
  shows "stays_drained w (prefix_of sched i) s"
proof (induction i)
  case 0
  from low [rule_format, of 0 s] show ?case by (simp add: prefix_of_0)
next
  case (Suc i)
  from valid obtain si where si: "run w (prefix_of sched i) s = Some si" by blast
  have "\<forall>sy. step w (sched i) si = Some sy \<longrightarrow> counter (gate sy) \<le>s 0"
    using low [rule_format, of "Suc i"] si by (simp add: prefix_of_Suc run_snoc)
  from stays_drained_snoc [OF Suc si this] show ?case by (simp add: prefix_of_Suc)
qed

lemma fair_run_drains_now:
  "consistent s \<Longrightarrow> no_stall w s \<Longrightarrow>
     \<forall>i. run w (prefix_of sched i) s \<noteq> None \<Longrightarrow>
     \<forall>i. never_adds_to_drain w (prefix_of sched i) s \<Longrightarrow>
     \<forall>i s'. run w (prefix_of sched i) s = Some s' \<longrightarrow> counter (gate s') \<le>s 0 \<Longrightarrow>
     fair w sched s \<Longrightarrow>
     \<exists>i s'. run w (prefix_of sched i) s = Some s' \<and> list_all (\<lambda>x. x = Running) (threads s')"
proof (induction "waiting (threads s)" arbitrary: s sched rule: less_induct)
  case less
  note con = less.prems(1) and ns = less.prems(2) and valid = less.prems(3)
    and sig = less.prems(4) and low = less.prems(5) and fr = less.prems(6)
  show ?case
  proof (cases "waiting (threads s) = 0")
    case True
    then have "run w (prefix_of sched 0) s = Some s \<and> list_all (\<lambda>x. x = Running) (threads s)"
      by (simp add: prefix_of_0 waiting_zero)
    then show ?thesis by blast
  next
    case False
    from low [rule_format, of 0 s] have low0: "counter (gate s) \<le>s 0"
      by (simp add: prefix_of_0)
    from some_woken [OF ns low0] False
    obtain t k where t: "t < length (threads s)" "threads s ! t = Woken k" by auto
    from fr [unfolded fair_def, rule_format, of 0 s t] t
    have ex: "\<exists>j. \<exists>p. sched j = Resume t p" by (auto simp: prefix_of_0)
    define j where "j = (LEAST j. \<exists>p. sched j = Resume t p)"
    from LeastI_ex [OF ex] obtain p where p: "sched j = Resume t p"
      unfolding j_def by blast
    have before: "\<forall>i < j. \<forall>q. sched i \<noteq> Resume t q"
      using not_less_Least [of _ "\<lambda>j. \<exists>p. sched j = Resume t p"] unfolding j_def by blast
    from valid obtain sj where sj: "run w (prefix_of sched j) s = Some sj" by blast
    from valid obtain s1 where s1: "run w (prefix_of sched (Suc j)) s = Some s1" by blast
    with sj have "step w (sched j) sj = Some s1"
      by (simp add: prefix_of_Suc run_snoc)
    then have st: "step w (Resume t p) sj = Some s1"
      by (simp only: p)
    from invariants_run [OF con ns sig [rule_format] s1]
    have con1: "consistent s1" and ns1: "no_stall w s1" by simp_all
    have lowj: "counter (gate sj) \<le>s 0" using low sj by blast
    from waiting_run_drained [OF stays_drained_prefix [OF valid low] sj]
    have "waiting (threads sj) \<le> waiting (threads s)" by simp
    moreover from waiting_step_drained [OF st lowj]
    have "Suc (waiting (threads s1)) = waiting (threads sj)" by simp
    ultimately have less1: "waiting (threads s1) < waiting (threads s)" by simp
    let ?rest = "\<lambda>k. sched (Suc j + k)"
    note shift = run_shift [OF s1]
    have valid1: "\<forall>i. run w (prefix_of ?rest i) s1 \<noteq> None"
      using valid shift by metis
    have sig1: "\<forall>i. never_adds_to_drain w (prefix_of ?rest i) s1"
      by (rule never_adds_shift [OF sig s1])
    have low1: "\<forall>i s'. run w (prefix_of ?rest i) s1 = Some s' \<longrightarrow> counter (gate s') \<le>s 0"
      using low shift by metis
    have fair1: "fair w ?rest s1"
      by (rule fair_shift [OF fr s1])
    from less.hyps [OF less1 con1 ns1 valid1 sig1 low1 fair1]
    obtain i s' where "run w (prefix_of ?rest i) s1 = Some s'"
      "list_all (\<lambda>x. x = Running) (threads s')"
      by blast
    then have "run w (prefix_of sched (Suc j + i)) s = Some s'
        \<and> list_all (\<lambda>x. x = Running) (threads s')"
      by (simp only: shift)
    then show ?thesis by blast
  qed
qed

text \<open>The same when the counter is at zero or below from step \<open>i0\<close> on only.\<close>

lemma fair_run_drains:
  assumes con: "consistent s" and ns: "no_stall w s"
    and valid: "\<forall>i. run w (prefix_of sched i) s \<noteq> None"
    and sig: "\<forall>i. never_adds_to_drain w (prefix_of sched i) s"
    and low: "\<forall>i s'. i0 \<le> i \<and> run w (prefix_of sched i) s = Some s'
                \<longrightarrow> counter (gate s') \<le>s 0"
    and fr: "fair w sched s"
  shows "\<exists>i s'. i0 \<le> i \<and> run w (prefix_of sched i) s = Some s'
           \<and> list_all (\<lambda>x. x = Running) (threads s')
           \<and> (\<forall>t < length (threads s). threads s ! t \<noteq> Running \<longrightarrow>
                 (t, True) \<in> set (drop (length (returns s)) (returns s')))"
proof -
  from valid obtain s0 where s0: "run w (prefix_of sched i0) s = Some s0" by blast
  let ?rest = "\<lambda>k. sched (i0 + k)"
  note shift = run_shift [OF s0]
  from invariants_run [OF con ns sig [rule_format] s0]
  have con0: "consistent s0" and ns0: "no_stall w s0" by simp_all
  have valid0: "\<forall>i. run w (prefix_of ?rest i) s0 \<noteq> None"
    using valid shift by metis
  have sig0: "\<forall>i. never_adds_to_drain w (prefix_of ?rest i) s0"
    by (rule never_adds_shift [OF sig s0])
  have low0: "\<forall>i s'. run w (prefix_of ?rest i) s0 = Some s' \<longrightarrow> counter (gate s') \<le>s 0"
  proof (intro allI impI)
    fix i s'
    assume "run w (prefix_of ?rest i) s0 = Some s'"
    then have "run w (prefix_of sched (i0 + i)) s = Some s'" by (simp only: shift)
    with low [rule_format, of "i0 + i" s'] show "counter (gate s') \<le>s 0" by simp
  qed
  have fair0: "fair w ?rest s0"
    by (rule fair_shift [OF fr s0])
  from fair_run_drains_now [OF con0 ns0 valid0 sig0 low0 fair0]
  obtain i s' where "run w (prefix_of ?rest i) s0 = Some s'"
    and all: "list_all (\<lambda>x. x = Running) (threads s')"
    by blast
  then have whole: "run w (prefix_of sched (i0 + i)) s = Some s'" by (simp only: shift)
  have "(t, True) \<in> set (drop (length (returns s)) (returns s'))"
    if t: "t < length (threads s)" and p: "threads s ! t \<noteq> Running" for t
  proof -
    have "t < length (threads s')" using length_run [OF whole] t by simp
    with all have "threads s' ! t = Running" by (simp add: list_all_length)
    from returned_since [OF whole t p this] show ?thesis .
  qed
  with whole all have "i0 \<le> i0 + i \<and> run w (prefix_of sched (i0 + i)) s = Some s'
      \<and> list_all (\<lambda>x. x = Running) (threads s')
      \<and> (\<forall>t < length (threads s). threads s ! t \<noteq> Running \<longrightarrow>
            (t, True) \<in> set (drop (length (returns s)) (returns s')))"
    by simp
  then show ?thesis by blast
qed

subsection \<open>\<^verbatim>\<open>numWaiters\<close> across a waiting call\<close>

lemma numWaiters_sleep_once:
  "numWaiters (sleep_once f g) = numWaiters (f (register_waiter g)) - 1"
  by (simp add: sleep_once_def unregister_waiter_def)

lemma loop_numWaiters:
  "WaitUntilZero_loop w d n g env = Some r \<Longrightarrow>
     \<forall>f \<in> set env. \<forall>x. numWaiters (f x) = numWaiters x \<Longrightarrow>
     numWaiters (gate_exit r) = numWaiters g"
proof (induction env arbitrary: d n g)
  case Nil
  then show ?case by (auto simp: wait_exit_def split: if_splits)
next
  case (Cons f env)
  show ?case
  proof (cases "0 <s counter g")
    case True
    with Cons.prems(1)
    have "WaitUntilZero_loop w True (Suc n) (sleep_once f g) env = Some r" by simp
    from Cons.IH [OF this] Cons.prems(2) show ?thesis
      by (simp add: numWaiters_sleep_once numWaiters_register)
  next
    case False
    with Cons.prems(1) show ?thesis by (auto simp: wait_exit_def)
  qed
qed

lemma WaitOneWakeup_numWaiters:
  "WaitOneWakeup w g env = Some r \<Longrightarrow>
     \<forall>f \<in> set env. \<forall>x. numWaiters (f x) = numWaiters x \<Longrightarrow>
     numWaiters (gate_exit r) = numWaiters g"
  by (auto simp: WaitOneWakeup_def wait_exit_def numWaiters_sleep_once numWaiters_register
      split: if_splits list.splits)


section \<open>The claims\<close>

text \<open>
  Claim C1. \<^verbatim>\<open>WaitUntilZero\<close> returns only with the counter at zero or below, and the
  value it returns is true exactly when it slept at least once. A wake-up that finds the
  counter still above zero sends it back to sleep: with no further wake-up it does not
  return, and with one it is in its second sleep; in the system, the woken thread that
  takes the lock with the counter above zero is asleep again after its step and has
  returned nothing.
\<close>

theorem WaitUntilZero_rechecks:
  "(WaitUntilZero w g env = Some r \<longrightarrow>
      counter (gate_exit r) \<le>s 0 \<and> didWait r = (0 < sleeps r))
   \<and> (0 <s counter g' \<and> 0 <s counter (sleep_once f g') \<longrightarrow>
        WaitUntilZero w g' [f] = None
        \<and> WaitUntilZero w g' (f # f' # env')
            = WaitUntilZero_loop w True 2 (sleep_once f' (sleep_once f g')) env')
   \<and> (t < length (threads s) \<and> threads s ! t = Woken UntilZero \<and> 0 <s counter (gate s) \<longrightarrow>
        (\<exists>s'. step w (Resume t p) s = Some s' \<and> threads s' ! t = Parked UntilZero
           \<and> returns s' = returns s \<and> gate s' = gate s))"
proof (intro conjI impI)
  assume "t < length (threads s) \<and> threads s ! t = Woken UntilZero \<and> 0 <s counter (gate s)"
  then show "\<exists>s'. step w (Resume t p) s = Some s' \<and> threads s' ! t = Parked UntilZero
           \<and> returns s' = returns s \<and> gate s' = gate s"
    by (simp add: Let_def go_to_sleep_def register_waiter_def unregister_waiter_def)
next
  assume "WaitUntilZero w g env = Some r"
  then show "counter (gate_exit r) \<le>s 0" and "didWait r = (0 < sleeps r)"
    using loop_exit [of w False 0 g env r] by (simp_all add: WaitUntilZero_def)
next
  assume "0 <s counter g' \<and> 0 <s counter (sleep_once f g')"
  then show "WaitUntilZero w g' [f] = None"
    and "WaitUntilZero w g' (f # f' # env')
           = WaitUntilZero_loop w True 2 (sleep_once f' (sleep_once f g')) env'"
    by (simp_all add: WaitUntilZero_def numeral_2_eq_2)
qed

theorem WaitUntilZero_rechecks_witness:
  "WaitUntilZero True \<lparr>counter = 1, numWaiters = 0\<rparr> [\<lambda>x. x, \<lambda>x. x\<lparr>counter := 0\<rparr>]
     = Some \<lparr>gate_exit = \<lparr>counter = 0, numWaiters = 0\<rparr>, didWait = True,
             relay = NoWake, sleeps = 2\<rparr>
   \<and> 0 <s counter \<lparr>counter = 1, numWaiters = 0\<rparr>
   \<and> 0 <s counter (sleep_once (\<lambda>x. x) \<lparr>counter = 1, numWaiters = 0\<rparr>)
   \<and> WaitUntilZero True \<lparr>counter = 1, numWaiters = 0\<rparr> [\<lambda>x. x] = None
   \<and> step True (Resume 0 0)
        \<lparr>gate = \<lparr>counter = 1, numWaiters = 1\<rparr>, threads = [Woken UntilZero], returns = []\<rparr>
      = Some \<lparr>gate = \<lparr>counter = 1, numWaiters = 1\<rparr>, threads = [Parked UntilZero],
              returns = []\<rparr>"
  using WaitUntilZero_rechecks [of True "\<lparr>counter = 1, numWaiters = 0\<rparr>"
      "[\<lambda>x. x, \<lambda>x. x\<lparr>counter := 0\<rparr>]"
      "\<lparr>gate_exit = \<lparr>counter = 0, numWaiters = 0\<rparr>, didWait = True, relay = NoWake, sleeps = 2\<rparr>"
      "\<lparr>counter = 1, numWaiters = 0\<rparr>" "\<lambda>x. x" "\<lambda>x. x" "[]" 0
      "\<lparr>gate = \<lparr>counter = 1, numWaiters = 1\<rparr>, threads = [Woken UntilZero], returns = []\<rparr>" 0]
  by (simp add: WaitUntilZero_def sleep_once_def register_waiter_def unregister_waiter_def
      wait_exit_def relay_signal_def word_sless_alt Let_def go_to_sleep_def)

text \<open>
  Claim C2. With the counter at zero or below at the call, \<^verbatim>\<open>WaitUntilZero\<close> and
  \<^verbatim>\<open>WaitOneWakeup\<close> return at once, whatever wake-ups would have come: they have not
  slept, they return false, and they leave the counter's state as it was. In the
  system, the thread that enters either operation is out of it after that one step, with
  false returned.
\<close>

theorem no_sleep_when_drained:
  "counter g \<le>s 0 \<Longrightarrow>
     (\<exists>r. WaitUntilZero w g env = Some r \<and> \<not> didWait r \<and> sleeps r = 0 \<and> gate_exit r = g)
   \<and> (\<exists>r. WaitOneWakeup w g env = Some r \<and> \<not> didWait r \<and> sleeps r = 0 \<and> gate_exit r = g)
   \<and> (t < length (threads s) \<and> threads s ! t = Running \<and> gate s = g \<longrightarrow>
        (\<exists>s'. step w (Wait t k p) s = Some s' \<and> threads s' ! t = Running
           \<and> returns s' = returns s @ [(t, False)] \<and> gate s' = g))"
proof (intro conjI impI)
  assume low: "counter g \<le>s 0"
  then show "\<exists>r. WaitUntilZero w g env = Some r \<and> \<not> didWait r \<and> sleeps r = 0
      \<and> gate_exit r = g"
    by (simp add: WaitUntilZero_def loop_drained wait_exit_def)
  from low show "\<exists>r. WaitOneWakeup w g env = Some r \<and> \<not> didWait r \<and> sleeps r = 0
      \<and> gate_exit r = g"
    by (simp add: WaitOneWakeup_def wait_exit_def signed.not_less [symmetric])
  assume t: "t < length (threads s) \<and> threads s ! t = Running \<and> gate s = g"
  then have "\<not> is_parked ((threads s)[t := Running] ! t)" by simp
  with t have "deliver (relay_signal w g) p ((threads s)[t := Running]) ! t = Running"
    by (simp add: deliver_nth)
  with low t show "\<exists>s'. step w (Wait t k p) s = Some s' \<and> threads s' ! t = Running
      \<and> returns s' = returns s @ [(t, False)] \<and> gate s' = g"
    by (simp add: finish_wait_def signed.not_less [symmetric])
qed

theorem no_sleep_when_drained_witness:
  "counter \<lparr>counter = - 3, numWaiters = 0\<rparr> \<le>s 0
   \<and> (\<exists>r. WaitUntilZero True \<lparr>counter = - 3, numWaiters = 0\<rparr> [\<lambda>x. x] = Some r
          \<and> \<not> didWait r \<and> sleeps r = 0 \<and> gate_exit r = \<lparr>counter = - 3, numWaiters = 0\<rparr>)
   \<and> (\<exists>r. WaitOneWakeup True \<lparr>counter = - 3, numWaiters = 0\<rparr> [\<lambda>x. x] = Some r
          \<and> \<not> didWait r \<and> sleeps r = 0 \<and> gate_exit r = \<lparr>counter = - 3, numWaiters = 0\<rparr>)
   \<and> (\<exists>s'. step True (Wait 0 OneWakeup 0)
               \<lparr>gate = \<lparr>counter = - 3, numWaiters = 0\<rparr>, threads = [Running], returns = []\<rparr>
             = Some s'
          \<and> threads s' ! 0 = Running \<and> returns s' = [(0, False)])"
proof -
  have drained: "counter \<lparr>counter = - 3, numWaiters = 0\<rparr> \<le>s 0"
    by (simp add: word_sle_eq)
  show ?thesis
    using drained no_sleep_when_drained [OF drained, of True "[\<lambda>x. x]" 0
        "\<lparr>gate = \<lparr>counter = - 3, numWaiters = 0\<rparr>, threads = [Running], returns = []\<rparr>"
        OneWakeup 0]
    by simp
qed


text \<open>
  Claim C3. \<^verbatim>\<open>Decrement\<close> returns the old counter minus 1 and \<^verbatim>\<open>Subtract(n)\<close> the old
  counter minus \<open>n\<close>, which is also the counter they leave; each signals the condition
  variable exactly when that new value is zero or below, with the signal of the wake
  policy. They are defined on every state, whatever the sign of the counter. The
  subtraction is the one of \<^verbatim>\<open>int32_t\<close>: read as integers, the result is the old value
  minus 1 (minus \<open>n\<close>) whenever that fits 32 bits, so that a counter at zero or below
  goes further down (with \<^verbatim>\<open>Subtract\<close>, for a positive \<open>n\<close>).
\<close>

theorem Decrement_Subtract_wake:
  "returned (Decrement w g) = counter g - 1
   \<and> counter (gate_after (Decrement w g)) = counter g - 1
   \<and> (notified (Decrement w g) \<noteq> NoWake) = (counter g - 1 \<le>s 0)
   \<and> notified (Decrement w g) = (if counter g - 1 \<le>s 0 then wake_waiters w else NoWake)
   \<and> returned (Subtract w n g) = counter g - n
   \<and> counter (gate_after (Subtract w n g)) = counter g - n
   \<and> (notified (Subtract w n g) \<noteq> NoWake) = (counter g - n \<le>s 0)
   \<and> notified (Subtract w n g) = (if counter g - n \<le>s 0 then wake_waiters w else NoWake)
   \<and> (fits_int32 (sint (counter g) - 1) \<longrightarrow>
         sint (returned (Decrement w g)) = sint (counter g) - 1
         \<and> sint (returned (Decrement w g)) < sint (counter g))
   \<and> (fits_int32 (sint (counter g) - sint n) \<longrightarrow>
         sint (returned (Subtract w n g)) = sint (counter g) - sint n
         \<and> (0 < sint n \<longrightarrow> sint (returned (Subtract w n g)) < sint (counter g)))"
proof -
  have dec: "fits_int32 (sint (counter g) - 1) \<longrightarrow>
               sint (returned (Decrement w g)) = sint (counter g) - 1"
    using sint_sub_fits [of "counter g" 1] by (simp add: Decrement_def Let_def)
  have sub: "fits_int32 (sint (counter g) - sint n) \<longrightarrow>
               sint (returned (Subtract w n g)) = sint (counter g) - sint n"
    using sint_sub_fits [of "counter g" n] by (simp add: Subtract_def Let_def)
  have rest: "returned (Decrement w g) = counter g - 1
   \<and> counter (gate_after (Decrement w g)) = counter g - 1
   \<and> (notified (Decrement w g) \<noteq> NoWake) = (counter g - 1 \<le>s 0)
   \<and> notified (Decrement w g) = (if counter g - 1 \<le>s 0 then wake_waiters w else NoWake)
   \<and> returned (Subtract w n g) = counter g - n
   \<and> counter (gate_after (Subtract w n g)) = counter g - n
   \<and> (notified (Subtract w n g) \<noteq> NoWake) = (counter g - n \<le>s 0)
   \<and> notified (Subtract w n g) = (if counter g - n \<le>s 0 then wake_waiters w else NoWake)"
    by (simp add: Decrement_def Subtract_def Let_def wake_waiters_def)
  from dec have dec': "fits_int32 (sint (counter g) - 1) \<longrightarrow>
         sint (returned (Decrement w g)) = sint (counter g) - 1
         \<and> sint (returned (Decrement w g)) < sint (counter g)"
    by simp
  from sub have sub': "fits_int32 (sint (counter g) - sint n) \<longrightarrow>
         sint (returned (Subtract w n g)) = sint (counter g) - sint n
         \<and> (0 < sint n \<longrightarrow> sint (returned (Subtract w n g)) < sint (counter g))"
    by simp
  from rest dec' sub' show ?thesis by blast
qed

theorem Decrement_Subtract_wake_witness:
  "returned (Decrement True \<lparr>counter = 0, numWaiters = 2\<rparr>) = - 1
   \<and> notified (Decrement True \<lparr>counter = 0, numWaiters = 2\<rparr>) = NotifyOne
   \<and> returned (Subtract True 3 \<lparr>counter = 0, numWaiters = 2\<rparr>) = - 3
   \<and> notified (Subtract True 3 \<lparr>counter = 0, numWaiters = 2\<rparr>) = NotifyOne
   \<and> fits_int32 (sint (counter \<lparr>counter = 0, numWaiters = 2\<rparr>) - 1)
   \<and> fits_int32 (sint (counter \<lparr>counter = 0, numWaiters = 2\<rparr>) - sint (3 :: 32 word))
   \<and> 0 < sint (3 :: 32 word)
   \<and> sint (returned (Decrement True \<lparr>counter = 0, numWaiters = 2\<rparr>)) = - 1
   \<and> sint (returned (Subtract True 3 \<lparr>counter = 0, numWaiters = 2\<rparr>)) = - 3"
  using Decrement_Subtract_wake [of True "\<lparr>counter = 0, numWaiters = 2\<rparr>" 3]
  by (simp add: fits_int32_def wake_waiters_def word_sle_eq)

text \<open>
  Claim C4. Under the wake-one policy (\<^verbatim>\<open>TL_WAKE_ONE\<close> set) every completed waiting call,
  \<^verbatim>\<open>WaitUntilZero\<close> or \<^verbatim>\<open>WaitOneWakeup\<close>, whether it slept or not, ends with the relay
  block: one \<^verbatim>\<open>notify_one\<close> exactly when \<^verbatim>\<open>numWaiters\<close> is above zero in the state it
  leaves under the lock, nothing otherwise, and never a \<^verbatim>\<open>notify_all\<close>. In the system,
  the step in which a thread returns from a waiting operation, on entry or after a
  wake-up, delivers that signal to the other threads and nothing else.
\<close>

theorem relay_on_every_exit:
  "(WaitUntilZero True g env = Some r \<or> WaitOneWakeup True g env = Some r \<longrightarrow>
      (relay r = NotifyOne) = (0 <s numWaiters (gate_exit r))
      \<and> (relay r = NoWake) = (\<not> 0 <s numWaiters (gate_exit r))
      \<and> relay r \<noteq> NotifyAll)
   \<and> ((step True (Wait t k p) s = Some s' \<or> step True (Resume t p) s = Some s')
        \<and> threads s' ! t = Running \<longrightarrow>
      threads s' = deliver (if 0 <s numWaiters (gate s') then NotifyOne else NoWake) p
                     ((threads s)[t := Running]))"
proof (intro conjI impI)
  assume "WaitUntilZero True g env = Some r \<or> WaitOneWakeup True g env = Some r"
  then have "relay r = relay_signal True (gate_exit r)"
    using loop_relay [of True False 0 g env r] WaitOneWakeup_relay [of True g env r]
    by (auto simp: WaitUntilZero_def)
  then show "(relay r = NotifyOne) = (0 <s numWaiters (gate_exit r))"
    and "(relay r = NoWake) = (\<not> 0 <s numWaiters (gate_exit r))"
    and "relay r \<noteq> NotifyAll"
    by (simp_all add: relay_signal_def)
next
  assume *: "(step True (Wait t k p) s = Some s' \<or> step True (Resume t p) s = Some s')
             \<and> threads s' ! t = Running"
  then have out: "threads s' ! t = Running" by simp
  from * have "\<exists>d g'. s' = finish_wait True t d p (s\<lparr>gate := g'\<rparr>)"
  proof (elim conjE disjE)
    assume st: "step True (Wait t k p) s = Some s'"
    from step_Wait [OF st]
    have t: "t < length (threads s)"
      and s': "s' = (if 0 <s counter (gate s) then go_to_sleep t k s
                     else finish_wait True t False p s)"
      by simp_all
    from out t have "s' = finish_wait True t False p (s\<lparr>gate := gate s\<rparr>)"
      by (simp add: s' system_simps split: if_splits)
    then show ?thesis by blast
  next
    assume st: "step True (Resume t p) s = Some s'"
    from step_Resume [OF st] out
    have "s' = finish_wait True t True p (s\<lparr>gate := unregister_waiter (gate s)\<rparr>)"
      by (auto simp: system_simps)
    then show ?thesis by blast
  qed
  then show "threads s' = deliver (if 0 <s numWaiters (gate s') then NotifyOne else NoWake) p
                     ((threads s)[t := Running])"
    by (auto simp: finish_wait_def relay_signal_def)
qed

theorem relay_on_every_exit_witness:
  "WaitOneWakeup True \<lparr>counter = 1, numWaiters = 1\<rparr> [\<lambda>x. x]
     = Some \<lparr>gate_exit = \<lparr>counter = 1, numWaiters = 1\<rparr>, didWait = True,
             relay = NotifyOne, sleeps = 1\<rparr>
   \<and> 0 <s numWaiters \<lparr>counter = 1, numWaiters = 1\<rparr>
   \<and> WaitUntilZero True \<lparr>counter = 0, numWaiters = 0\<rparr> []
     = Some \<lparr>gate_exit = \<lparr>counter = 0, numWaiters = 0\<rparr>, didWait = False,
             relay = NoWake, sleeps = 0\<rparr>
   \<and> step True (Resume 0 0)
        \<lparr>gate = \<lparr>counter = 0, numWaiters = 2\<rparr>,
          threads = [Woken UntilZero, Parked UntilZero], returns = []\<rparr>
      = Some \<lparr>gate = \<lparr>counter = 0, numWaiters = 1\<rparr>,
              threads = [Running, Woken UntilZero], returns = [(0, True)]\<rparr>
   \<and> deliver NotifyOne 0 ([Woken UntilZero, Parked UntilZero][0 := Running])
      = [Running, Woken UntilZero]"
proof -
  let ?s = "\<lparr>gate = \<lparr>counter = 0, numWaiters = 2\<rparr>,
             threads = [Woken UntilZero, Parked UntilZero], returns = []\<rparr>"
  let ?s' = "\<lparr>gate = \<lparr>counter = 0, numWaiters = 1\<rparr>,
              threads = [Running, Woken UntilZero], returns = [(0, True)]\<rparr>"
  have one: "WaitOneWakeup True \<lparr>counter = 1, numWaiters = 1\<rparr> [\<lambda>x. x]
     = Some \<lparr>gate_exit = \<lparr>counter = 1, numWaiters = 1\<rparr>, didWait = True,
             relay = NotifyOne, sleeps = 1\<rparr>"
    by (simp add: WaitOneWakeup_def wait_exit_def sleep_once_def register_waiter_def
        unregister_waiter_def relay_signal_def word_sless_alt)
  have zero: "WaitUntilZero True \<lparr>counter = 0, numWaiters = 0\<rparr> []
     = Some \<lparr>gate_exit = \<lparr>counter = 0, numWaiters = 0\<rparr>, didWait = False,
             relay = NoWake, sleeps = 0\<rparr>"
    by (simp add: WaitUntilZero_def wait_exit_def relay_signal_def)
  have sl: "sleepers [Running, Parked UntilZero] = [1]"
    by (simp add: sleepers_def upt_rec)
  have st: "step True (Resume 0 0) ?s = Some ?s'"
    by (simp add: Let_def finish_wait_def unregister_waiter_def relay_signal_def
        notify_one_def sl word_sless_alt)
  have pos: "0 <s numWaiters (gate ?s')" by (simp add: word_sless_alt)
  from relay_on_every_exit [of "\<lparr>counter = 1, numWaiters = 1\<rparr>" "[\<lambda>x. x]"
      "\<lparr>gate_exit = \<lparr>counter = 1, numWaiters = 1\<rparr>, didWait = True,
        relay = NotifyOne, sleeps = 1\<rparr>" 0 UntilZero 0 ?s ?s'] one st pos
  have "0 <s numWaiters \<lparr>counter = 1, numWaiters = 1\<rparr>"
    and "deliver NotifyOne 0 ([Woken UntilZero, Parked UntilZero][0 := Running])
           = [Running, Woken UntilZero]"
    by simp_all
  with one zero st show ?thesis by (intro conjI)
qed

text \<open>
  Claim C5. Called with the counter above zero, \<^verbatim>\<open>WaitOneWakeup\<close> sleeps: without a
  wake-up it does not return. With one it returns true after that single sleep, in the
  state the wake-up found, whatever the counter is then. In the system, the thread that
  enters it with the counter above zero goes to sleep, and once woken it returns true
  at its next step without looking at the counter.
\<close>

theorem WaitOneWakeup_at_most_once:
  "0 <s counter g \<Longrightarrow>
     WaitOneWakeup w g [] = None
     \<and> (\<exists>r. WaitOneWakeup w g (f # env) = Some r \<and> didWait r \<and> sleeps r = 1
            \<and> gate_exit r = sleep_once f g)
     \<and> (t < length (threads s) \<and> threads s ! t = Running \<and> gate s = g \<longrightarrow>
          (\<exists>s'. step w (Wait t OneWakeup p) s = Some s' \<and> threads s' ! t = Parked OneWakeup
             \<and> returns s' = returns s))
     \<and> (t' < length (threads s1) \<and> threads s1 ! t' = Woken OneWakeup \<longrightarrow>
          (\<exists>s'. step w (Resume t' p') s1 = Some s' \<and> threads s' ! t' = Running
             \<and> returns s' = returns s1 @ [(t', True)] \<and> counter (gate s') = counter (gate s1)))"
proof (intro conjI impI)
  assume pos: "0 <s counter g"
  then show "WaitOneWakeup w g [] = None"
    and "\<exists>r. WaitOneWakeup w g (f # env) = Some r \<and> didWait r \<and> sleeps r = 1
           \<and> gate_exit r = sleep_once f g"
    by (simp_all add: WaitOneWakeup_def wait_exit_def)
  assume "t < length (threads s) \<and> threads s ! t = Running \<and> gate s = g"
  with pos show "\<exists>s'. step w (Wait t OneWakeup p) s = Some s'
      \<and> threads s' ! t = Parked OneWakeup \<and> returns s' = returns s"
    by (simp add: go_to_sleep_def)
next
  assume t': "t' < length (threads s1) \<and> threads s1 ! t' = Woken OneWakeup"
  then have "\<not> is_parked ((threads s1)[t' := Running] ! t')" by simp
  with t' have "deliver (relay_signal w (unregister_waiter (gate s1))) p'
      ((threads s1)[t' := Running]) ! t' = Running"
    by (simp add: deliver_nth)
  with t' show "\<exists>s'. step w (Resume t' p') s1 = Some s' \<and> threads s' ! t' = Running
      \<and> returns s' = returns s1 @ [(t', True)] \<and> counter (gate s') = counter (gate s1)"
    by (simp add: Let_def finish_wait_def unregister_waiter_def)
qed

theorem WaitOneWakeup_at_most_once_witness:
  "0 <s counter \<lparr>counter = 2, numWaiters = 0\<rparr>
   \<and> WaitOneWakeup True \<lparr>counter = 2, numWaiters = 0\<rparr> [] = None
   \<and> (\<exists>r. WaitOneWakeup True \<lparr>counter = 2, numWaiters = 0\<rparr> [\<lambda>x. x, \<lambda>x. x] = Some r
          \<and> didWait r \<and> sleeps r = 1 \<and> gate_exit r = \<lparr>counter = 2, numWaiters = 0\<rparr>
          \<and> 0 <s counter (gate_exit r))
   \<and> run True [Wait 0 OneWakeup 0, Spurious 0, Resume 0 0]
        \<lparr>gate = \<lparr>counter = 2, numWaiters = 0\<rparr>, threads = [Running], returns = []\<rparr>
      = Some \<lparr>gate = \<lparr>counter = 2, numWaiters = 0\<rparr>, threads = [Running],
              returns = [(0, True)]\<rparr>"
proof -
  let ?s = "\<lparr>gate = \<lparr>counter = 2, numWaiters = 0\<rparr>, threads = [Running], returns = []\<rparr>"
  let ?s1 = "\<lparr>gate = \<lparr>counter = 2, numWaiters = 1\<rparr>, threads = [Woken OneWakeup],
              returns = []\<rparr>"
  have pos: "0 <s counter \<lparr>counter = 2, numWaiters = 0\<rparr>"
    by (simp add: word_sless_alt)
  have r: "run True [Wait 0 OneWakeup 0, Spurious 0, Resume 0 0] ?s
      = Some \<lparr>gate = \<lparr>counter = 2, numWaiters = 0\<rparr>, threads = [Running],
              returns = [(0, True)]\<rparr>"
    by (simp add: Let_def go_to_sleep_def finish_wait_def register_waiter_def
        unregister_waiter_def relay_signal_def word_sless_alt)
  show ?thesis
    using pos r WaitOneWakeup_at_most_once [OF pos, of True "\<lambda>x. x" "[\<lambda>x. x]" 0 ?s 0 0 ?s1 0]
    by (auto simp: sleep_once_def register_waiter_def unregister_waiter_def)
qed


text \<open>
  \<^verbatim>\<open>Increment\<close> and \<^verbatim>\<open>Add\<close> have no notification, in either branch of the header and
  under either wake policy: they never signal, whatever the counter becomes, and in the
  system their step leaves every thread as it was.
\<close>

lemma adding_never_signals:
  "notified (Add n g) = NoWake \<and> notified (Increment g) = NoWake
   \<and> (step w (Call t (CallAdd n) p) s = Some s' \<longrightarrow> threads s' = threads s)
   \<and> (step w (Call t CallIncrement p) s = Some s' \<longrightarrow> threads s' = threads s)"
proof -
  have "threads s' = threads s" if "step w (Call t (CallAdd n) p) s = Some s'"
    using step_Call [OF that] by (simp add: Add_def Let_def)
  moreover have "threads s' = threads s" if "step w (Call t CallIncrement p) s = Some s'"
    using step_Call [OF that] by (simp add: Increment_def Let_def)
  ultimately show ?thesis by (simp add: Add_def Increment_def Let_def)
qed

text \<open>
  Claim C6. The claim has an \<^verbatim>\<open>Add\<close> of a negative number that takes the counter to zero
  or below trigger the wake policy as \<^verbatim>\<open>Decrement\<close> and \<^verbatim>\<open>Subtract\<close> do, so that a
  blocked waiter is woken by it; the comment on the class in the header says the same of
  the counter: \<^verbatim>\<open>While counter value is <= 0 no thread can stay asleep\<close>. The code of
  \<^verbatim>\<open>Add\<close> does not do it. From a fresh counter with two threads, thread 1 calls
  \<^verbatim>\<open>Increment\<close>, thread 0 calls \<^verbatim>\<open>WaitUntilZero\<close> and goes to sleep, and thread 1 calls
  \<^verbatim>\<open>Add(-1)\<close>: the counter is 0, no signal is given, thread 0 is still asleep and there
  is no woken thread to resume, under the wake-one and under the wake-all policy. In the
  same state \<^verbatim>\<open>Subtract(1)\<close> signals and wakes thread 0.
\<close>

theorem Add_strands_sleeper:
  "run True [Call 1 CallIncrement 0, Wait 0 UntilZero 0] (start 2)
     = Some \<lparr>gate = \<lparr>counter = 1, numWaiters = 1\<rparr>, threads = [Parked UntilZero, Running],
             returns = []\<rparr>
   \<and> step True (Call 1 (CallAdd (- 1)) 0)
       \<lparr>gate = \<lparr>counter = 1, numWaiters = 1\<rparr>, threads = [Parked UntilZero, Running],
         returns = []\<rparr>
     = Some \<lparr>gate = \<lparr>counter = 0, numWaiters = 1\<rparr>, threads = [Parked UntilZero, Running],
             returns = []\<rparr>
   \<and> step False (Call 1 (CallAdd (- 1)) 0)
       \<lparr>gate = \<lparr>counter = 1, numWaiters = 1\<rparr>, threads = [Parked UntilZero, Running],
         returns = []\<rparr>
     = Some \<lparr>gate = \<lparr>counter = 0, numWaiters = 1\<rparr>, threads = [Parked UntilZero, Running],
             returns = []\<rparr>
   \<and> counter (gate_after (Add (- 1) \<lparr>counter = 1, numWaiters = 1\<rparr>)) \<le>s 0
   \<and> notified (Add (- 1) \<lparr>counter = 1, numWaiters = 1\<rparr>) = NoWake
   \<and> step True (Resume 0 0)
       \<lparr>gate = \<lparr>counter = 0, numWaiters = 1\<rparr>, threads = [Parked UntilZero, Running],
         returns = []\<rparr>
     = None
   \<and> notified (Subtract True 1 \<lparr>counter = 1, numWaiters = 1\<rparr>) = NotifyOne
   \<and> step True (Call 1 (CallSubtract 1) 0)
       \<lparr>gate = \<lparr>counter = 1, numWaiters = 1\<rparr>, threads = [Parked UntilZero, Running],
         returns = []\<rparr>
     = Some \<lparr>gate = \<lparr>counter = 0, numWaiters = 1\<rparr>, threads = [Woken UntilZero, Running],
             returns = []\<rparr>"
  by (simp add: start_def TLCounter_new_def Increment_def Add_def Subtract_def Let_def
      numeral_2_eq_2 go_to_sleep_def register_waiter_def wake_waiters_def notify_one_def
      sleepers_def word_sless_alt word_sle_eq)

text \<open>
  Claim C7. After any serialisation of \<^verbatim>\<open>Increment\<close>, \<^verbatim>\<open>Decrement\<close>, \<^verbatim>\<open>Add\<close> and
  \<^verbatim>\<open>Subtract\<close> calls on a fresh counter, and after any schedule of a system started on a
  fresh counter, the counter is the net delta of the calls: \<open>+1\<close> for each
  \<^verbatim>\<open>Increment\<close>, \<open>-1\<close> for each \<^verbatim>\<open>Decrement\<close>, \<open>+n\<close> for \<^verbatim>\<open>Add(n)\<close> and \<open>-n\<close> for
  \<^verbatim>\<open>Subtract(n)\<close>. It is the same for every order of the same calls. The net delta is
  the sum in the arithmetic of the counter, \<^verbatim>\<open>int32_t\<close>; the sum of the contributions as
  unbounded integers is the value of the counter whenever it fits an \<^verbatim>\<open>int32_t\<close>.
\<close>

theorem balance:
  "counter (serial w cs TLCounter_new) = net_delta cs
   \<and> (fits_int32 (net_delta_int cs) \<longrightarrow>
         sint (counter (serial w cs TLCounter_new)) = net_delta_int cs)
   \<and> (mset cs' = mset cs \<longrightarrow>
         counter (serial w cs' TLCounter_new) = counter (serial w cs TLCounter_new))
   \<and> (run w es (start n) = Some s \<longrightarrow> counter (gate s) = net_delta (calls_of es))"
proof (intro conjI impI)
  show eq: "counter (serial w cs TLCounter_new) = net_delta cs"
    by (simp add: counter_serial TLCounter_new_def)
  show "sint (counter (serial w cs TLCounter_new)) = net_delta_int cs"
    if "fits_int32 (net_delta_int cs)"
    using that by (simp add: eq net_delta_int sint_of_int_fits)
  show "counter (serial w cs' TLCounter_new) = counter (serial w cs TLCounter_new)"
    if "mset cs' = mset cs"
    using net_delta_mset [OF that] by (simp add: counter_serial)
  show "counter (gate s) = net_delta (calls_of es)"
    if "run w es (start n) = Some s"
    using counter_run [OF that] by (simp add: start_def TLCounter_new_def)
qed

theorem balance_witness:
  "net_delta [CallAdd 5, CallDecrement, CallSubtract 7] = - 3
   \<and> net_delta_int [CallAdd 5, CallDecrement, CallSubtract 7] = - 3
   \<and> fits_int32 (net_delta_int [CallAdd 5, CallDecrement, CallSubtract 7])
   \<and> counter (serial True [CallAdd 5, CallDecrement, CallSubtract 7] TLCounter_new) = - 3
   \<and> sint (counter (serial True [CallAdd 5, CallDecrement, CallSubtract 7] TLCounter_new)) = - 3
   \<and> mset [CallSubtract 7, CallAdd 5, CallDecrement]
       = mset [CallAdd 5, CallDecrement, CallSubtract 7]
   \<and> counter (serial True [CallSubtract 7, CallAdd 5, CallDecrement] TLCounter_new) = - 3
   \<and> run True [Call 0 (CallAdd 5) 0, Wait 1 UntilZero 0, Call 0 CallDecrement 0,
                Call 0 (CallSubtract 7) 0] (start 2)
       = Some \<lparr>gate = \<lparr>counter = - 3, numWaiters = 1\<rparr>, threads = [Running, Woken UntilZero],
               returns = []\<rparr>"
proof -
  have d: "net_delta [CallAdd 5, CallDecrement, CallSubtract 7] = - 3"
    by (simp add: net_delta_def)
  have i: "net_delta_int [CallAdd 5, CallDecrement, CallSubtract 7] = - 3"
    by (simp add: net_delta_int_def)
  have f: "fits_int32 (net_delta_int [CallAdd 5, CallDecrement, CallSubtract 7])"
    by (simp add: i fits_int32_def)
  have m: "mset [CallSubtract 7, CallAdd 5, CallDecrement]
             = mset [CallAdd 5, CallDecrement, CallSubtract 7]"
    by simp
  have r: "run True [Call 0 (CallAdd 5) 0, Wait 1 UntilZero 0, Call 0 CallDecrement 0,
                Call 0 (CallSubtract 7) 0] (start 2)
       = Some \<lparr>gate = \<lparr>counter = - 3, numWaiters = 1\<rparr>, threads = [Running, Woken UntilZero],
               returns = []\<rparr>"
    by (simp add: start_def TLCounter_new_def Add_def Decrement_def Subtract_def Let_def
        numeral_2_eq_2 go_to_sleep_def register_waiter_def wake_waiters_def notify_one_def
        sleepers_def word_sless_alt word_sle_eq)
  show ?thesis
    using d i f m r balance [of True "[CallAdd 5, CallDecrement, CallSubtract 7]"
        "[CallSubtract 7, CallAdd 5, CallDecrement]"
        "[Call 0 (CallAdd 5) 0, Wait 1 UntilZero 0, Call 0 CallDecrement 0,
          Call 0 (CallSubtract 7) 0]" 2
        "\<lparr>gate = \<lparr>counter = - 3, numWaiters = 1\<rparr>, threads = [Running, Woken UntilZero],
               returns = []\<rparr>"]
    by simp
qed

text \<open>
  Where the integer sum does not fit, the counter holds it reduced to 32 bits: after
  \<^verbatim>\<open>Add(2147483647)\<close> and \<^verbatim>\<open>Increment\<close> the integer sum is \<open>2 ^ 31\<close> and the counter
  reads \<open>- (2 ^ 31)\<close>.
\<close>

lemma net_delta_int_wraps:
  "net_delta_int [CallAdd 0x7FFFFFFF, CallIncrement] = 2 ^ 31
   \<and> net_delta [CallAdd 0x7FFFFFFF, CallIncrement] = 0x80000000
   \<and> sint (counter (serial True [CallAdd 0x7FFFFFFF, CallIncrement] TLCounter_new))
       = - (2 ^ 31)"
  by (simp add: TLCounter_new_def Add_def Increment_def net_delta_def net_delta_int_def)


text \<open>
  Claim C8. \<^verbatim>\<open>numWaiters\<close> starts at 0. In every state that a system of fewer than
  \<open>2 ^ 31\<close> threads reaches from a fresh counter it is the number of threads inside a
  waiting operation, so it is never negative. The mutating operations leave it alone; a
  sleep adds one before the wait and takes one off after it; and a completed waiting call
  leaves it as it found it, when the threads that ran meanwhile left it as they found it.
\<close>

theorem numWaiters_nonnegative:
  "numWaiters TLCounter_new = 0
   \<and> (n < 2 ^ 31 \<and> run w es (start n) = Some s \<longrightarrow>
         0 \<le> sint (numWaiters (gate s))
         \<and> sint (numWaiters (gate s)) = int (waiting (threads s)))
   \<and> numWaiters (gate_after (mutate w c g)) = numWaiters g
   \<and> numWaiters (register_waiter g) = numWaiters g + 1
   \<and> numWaiters (sleep_once f g) = numWaiters (f (register_waiter g)) - 1
   \<and> ((WaitUntilZero w g env = Some r \<or> WaitOneWakeup w g env = Some r)
        \<and> (\<forall>f \<in> set env. \<forall>x. numWaiters (f x) = numWaiters x) \<longrightarrow>
          numWaiters (gate_exit r) = numWaiters g)"
proof (intro conjI impI)
  show "numWaiters TLCounter_new = 0" by (simp add: TLCounter_new_def)
  show "numWaiters (gate_after (mutate w c g)) = numWaiters g" by (rule numWaiters_mutate)
  show "numWaiters (register_waiter g) = numWaiters g + 1" by (rule numWaiters_register)
  show "numWaiters (sleep_once f g) = numWaiters (f (register_waiter g)) - 1"
    by (rule numWaiters_sleep_once)
next
  assume "n < 2 ^ 31 \<and> run w es (start n) = Some s"
  then have "consistent s"
    using consistent_run [OF consistent_start] by blast
  from consistent_sint [OF this]
  show "sint (numWaiters (gate s)) = int (waiting (threads s))"
    and "0 \<le> sint (numWaiters (gate s))"
    by simp_all
next
  assume "(WaitUntilZero w g env = Some r \<or> WaitOneWakeup w g env = Some r)
          \<and> (\<forall>f \<in> set env. \<forall>x. numWaiters (f x) = numWaiters x)"
  then show "numWaiters (gate_exit r) = numWaiters g"
    using loop_numWaiters [of w False 0 g env r] WaitOneWakeup_numWaiters [of w g env r]
    by (auto simp: WaitUntilZero_def)
qed

theorem numWaiters_nonnegative_witness:
  "(2 :: nat) < 2 ^ 31
   \<and> run True [Call 0 CallIncrement 0, Wait 1 UntilZero 0] (start 2)
       = Some \<lparr>gate = \<lparr>counter = 1, numWaiters = 1\<rparr>, threads = [Running, Parked UntilZero],
               returns = []\<rparr>
   \<and> sint (numWaiters \<lparr>counter = 1, numWaiters = 1\<rparr>) = int (waiting [Running, Parked UntilZero])
   \<and> WaitUntilZero True \<lparr>counter = 1, numWaiters = 0\<rparr> [\<lambda>x. x\<lparr>counter := 0\<rparr>]
       = Some \<lparr>gate_exit = \<lparr>counter = 0, numWaiters = 0\<rparr>, didWait = True, relay = NoWake,
               sleeps = 1\<rparr>
   \<and> list_all (\<lambda>f. numWaiters (f \<lparr>counter = 7, numWaiters = 3\<rparr>) = 3) [\<lambda>x. x\<lparr>counter := 0\<rparr>]"
proof -
  have r: "run True [Call 0 CallIncrement 0, Wait 1 UntilZero 0] (start 2)
       = Some \<lparr>gate = \<lparr>counter = 1, numWaiters = 1\<rparr>, threads = [Running, Parked UntilZero],
               returns = []\<rparr>"
    by (simp add: start_def TLCounter_new_def Increment_def Let_def numeral_2_eq_2
        go_to_sleep_def register_waiter_def word_sless_alt)
  have u: "WaitUntilZero True \<lparr>counter = 1, numWaiters = 0\<rparr> [\<lambda>x. x\<lparr>counter := 0\<rparr>]
       = Some \<lparr>gate_exit = \<lparr>counter = 0, numWaiters = 0\<rparr>, didWait = True, relay = NoWake,
               sleeps = 1\<rparr>"
    by (simp add: WaitUntilZero_def sleep_once_def register_waiter_def unregister_waiter_def
        wait_exit_def relay_signal_def word_sless_alt)
  have e: "\<forall>f \<in> set [\<lambda>x. x\<lparr>counter := 0\<rparr>]. \<forall>x. numWaiters (f x) = numWaiters x"
    by simp
  show ?thesis
    using r u e numWaiters_nonnegative [of 2 True "[Call 0 CallIncrement 0, Wait 1 UntilZero 0]"
        "\<lparr>gate = \<lparr>counter = 1, numWaiters = 1\<rparr>, threads = [Running, Parked UntilZero],
               returns = []\<rparr>" CallIncrement "\<lparr>counter = 1, numWaiters = 0\<rparr>" "\<lambda>x. x"
        "[\<lambda>x. x\<lparr>counter := 0\<rparr>]"
        "\<lparr>gate_exit = \<lparr>counter = 0, numWaiters = 0\<rparr>, didWait = True, relay = NoWake,
               sleeps = 1\<rparr>"]
    by simp
qed


text \<open>
  Claim C9. Take a system whose \<^verbatim>\<open>numWaiters\<close> counts its waiting threads and whose wake
  chain is intact (as in a fresh system, or with \<open>K\<close> threads asleep in
  \<^verbatim>\<open>WaitUntilZero\<close> and the counter above zero), and schedules that never add to drain:
  no call of \<^verbatim>\<open>Increment\<close> or \<^verbatim>\<open>Add\<close> takes the counter from above zero to zero or
  below, so that it gets there through \<^verbatim>\<open>Decrement\<close> and \<^verbatim>\<open>Subtract\<close> only. That
  these two signal when they take it there is a fact of the code, proved above
  (\<open>Decrement_signals\<close>, \<open>Subtract_signals\<close>), not an assumption. Under either wake
  policy:

  First, after a schedule that ends with the counter at zero or below,
  \<^item> no sleeper is stranded: once no woken thread is left to run, every thread is
    outside the waiting operations;
  \<^item> every woken thread, when it takes the lock, returns at once and lowers the number of
    waiting threads by one;
  \<^item> along every further schedule on which the counter stays at zero or below, the number
    of waiting threads goes down by one with each resumption and never up;
  \<^item> resuming woken threads, as many times as there are waiting threads and with no other
    step, gets every thread out, and each thread that slept in \<^verbatim>\<open>WaitUntilZero\<close> at
    the beginning has by then returned true from it.

  Second, under a scheduler that never stops and is fair to the woken threads, if the
  counter stays at zero or below from some step on, then at some later step every thread
  is outside the waiting operations, and each thread that slept in \<^verbatim>\<open>WaitUntilZero\<close>
  at the beginning has returned true from it.
\<close>

theorem drain_wakes_all:
  assumes "consistent s" and "no_stall w s"
  shows "(never_adds_to_drain w es s \<and> run w es s = Some s' \<and> counter (gate s') \<le>s 0 \<longrightarrow>
       (\<not> list_ex is_woken (threads s') \<longrightarrow> list_all (\<lambda>x. x = Running) (threads s'))
       \<and> (\<forall>t p. t < length (threads s') \<and> is_woken (threads s' ! t) \<longrightarrow>
             (\<exists>s1. step w (Resume t p) s' = Some s1 \<and> threads s1 ! t = Running
                \<and> returns s1 = returns s' @ [(t, True)]
                \<and> Suc (waiting (threads s1)) = waiting (threads s')))
       \<and> (\<forall>rs s''. stays_drained w rs s' \<and> run w rs s' = Some s'' \<longrightarrow>
             waiting (threads s'') + length (filter is_resume rs) = waiting (threads s'))
       \<and> (\<exists>rs s''. list_all is_resume rs \<and> length rs = waiting (threads s')
             \<and> run w rs s' = Some s'' \<and> list_all (\<lambda>x. x = Running) (threads s'')
             \<and> (\<forall>t < length (threads s). threads s ! t = Parked UntilZero \<longrightarrow>
                   (t, True) \<in> set (drop (length (returns s)) (returns s'')))))
    \<and> ((\<forall>i. run w (prefix_of sched i) s \<noteq> None)
        \<and> (\<forall>i. never_adds_to_drain w (prefix_of sched i) s)
        \<and> (\<forall>i s1. i0 \<le> i \<and> run w (prefix_of sched i) s = Some s1
              \<longrightarrow> counter (gate s1) \<le>s 0)
        \<and> fair w sched s \<longrightarrow>
       (\<exists>i s1. i0 \<le> i \<and> run w (prefix_of sched i) s = Some s1
          \<and> list_all (\<lambda>x. x = Running) (threads s1)
          \<and> (\<forall>t < length (threads s). threads s ! t = Parked UntilZero \<longrightarrow>
                (t, True) \<in> set (drop (length (returns s)) (returns s1)))))"
proof (rule conjI; rule impI; (elim conjE)?)
  assume sig: "never_adds_to_drain w es s" and run: "run w es s = Some s'"
    and low: "counter (gate s') \<le>s 0"
  from invariants_run [OF assms sig run]
  have con: "consistent s'" and ns: "no_stall w s'" by simp_all
  have quiet: "list_all (\<lambda>x. x = Running) (threads s')" if "\<not> list_ex is_woken (threads s')"
    using ns low that by (rule quiescent_all_running)
  have resume: "\<exists>s1. step w (Resume t p) s' = Some s1 \<and> threads s1 ! t = Running
          \<and> returns s1 = returns s' @ [(t, True)]
          \<and> Suc (waiting (threads s1)) = waiting (threads s')"
    if "t < length (threads s') \<and> is_woken (threads s' ! t)" for t p
  proof -
    from that obtain k where t: "t < length (threads s')" "threads s' ! t = Woken k"
      by (auto simp: is_woken_iff)
    let ?s1 = "finish_wait w t True p (s'\<lparr>gate := unregister_waiter (gate s')\<rparr>)"
    have "step w (Resume t p) s' = Some ?s1"
      by (rule resume_drained [OF t low])
    moreover have "threads ?s1 ! t = Running"
      by (rule running_after_finish [OF t(1)])
    moreover have "returns ?s1 = returns s' @ [(t, True)]"
      by (simp add: system_simps)
    moreover have "Suc (waiting (threads ?s1)) = waiting (threads s')"
      by (rule waiting_after_finish [OF t])
    ultimately show ?thesis by blast
  qed
  have down: "waiting (threads s'') + length (filter is_resume rs) = waiting (threads s')"
    if "stays_drained w rs s' \<and> run w rs s' = Some s''" for rs s''
    using that waiting_run_drained [of w rs s' s''] by blast
  from drain_schedule [OF con ns low refl]
  obtain rs s'' where rs: "list_all is_resume rs" "length rs = waiting (threads s')"
    "run w rs s' = Some s''" "list_all (\<lambda>x. x = Running) (threads s'')"
    by blast
  have whole: "run w (es @ rs) s = Some s''"
    by (rule run_append [OF run rs(3)])
  have "(t, True) \<in> set (drop (length (returns s)) (returns s''))"
    if t: "t < length (threads s)" and p: "threads s ! t = Parked UntilZero" for t
  proof -
    have "t < length (threads s'')" using length_run [OF whole] t by simp
    with rs(4) have "threads s'' ! t = Running" by (simp add: list_all_length)
    with returned_since [OF whole t] p show ?thesis by simp
  qed
  with rs have out: "\<exists>rs s''. list_all is_resume rs \<and> length rs = waiting (threads s')
          \<and> run w rs s' = Some s'' \<and> list_all (\<lambda>x. x = Running) (threads s'')
          \<and> (\<forall>t < length (threads s). threads s ! t = Parked UntilZero \<longrightarrow>
                (t, True) \<in> set (drop (length (returns s)) (returns s'')))"
    by blast
  from quiet resume down out
  show "(\<not> list_ex is_woken (threads s') \<longrightarrow> list_all (\<lambda>x. x = Running) (threads s'))
       \<and> (\<forall>t p. t < length (threads s') \<and> is_woken (threads s' ! t) \<longrightarrow>
             (\<exists>s1. step w (Resume t p) s' = Some s1 \<and> threads s1 ! t = Running
                \<and> returns s1 = returns s' @ [(t, True)]
                \<and> Suc (waiting (threads s1)) = waiting (threads s')))
       \<and> (\<forall>rs s''. stays_drained w rs s' \<and> run w rs s' = Some s'' \<longrightarrow>
             waiting (threads s'') + length (filter is_resume rs) = waiting (threads s'))
       \<and> (\<exists>rs s''. list_all is_resume rs \<and> length rs = waiting (threads s')
             \<and> run w rs s' = Some s'' \<and> list_all (\<lambda>x. x = Running) (threads s'')
             \<and> (\<forall>t < length (threads s). threads s ! t = Parked UntilZero \<longrightarrow>
                   (t, True) \<in> set (drop (length (returns s)) (returns s''))))"
    by (intro conjI allI impI)
next
  assume valid: "\<forall>i. run w (prefix_of sched i) s \<noteq> None"
    and sig: "\<forall>i. never_adds_to_drain w (prefix_of sched i) s"
    and low: "\<forall>i s1. i0 \<le> i \<and> run w (prefix_of sched i) s = Some s1
                \<longrightarrow> counter (gate s1) \<le>s 0"
    and fr: "fair w sched s"
  from fair_run_drains [OF assms valid sig low fr]
  obtain i s1 where i: "i0 \<le> i" "run w (prefix_of sched i) s = Some s1"
    "list_all (\<lambda>x. x = Running) (threads s1)"
    and ret: "\<forall>t < length (threads s). threads s ! t \<noteq> Running \<longrightarrow>
                 (t, True) \<in> set (drop (length (returns s)) (returns s1))"
    by blast
  from ret have "\<forall>t < length (threads s). threads s ! t = Parked UntilZero \<longrightarrow>
                 (t, True) \<in> set (drop (length (returns s)) (returns s1))"
    by simp
  with i show "\<exists>i s1. i0 \<le> i \<and> run w (prefix_of sched i) s = Some s1
          \<and> list_all (\<lambda>x. x = Running) (threads s1)
          \<and> (\<forall>t < length (threads s). threads s ! t = Parked UntilZero \<longrightarrow>
                (t, True) \<in> set (drop (length (returns s)) (returns s1)))"
    by blast
qed


text \<open>
  Two threads sleep in \<^verbatim>\<open>WaitUntilZero\<close> with the counter at 1; the third calls
  \<^verbatim>\<open>Decrement\<close>, which wakes one of them. The woken thread returns and relays the wake-up
  to the other. In the scheduler that never stops, the third thread goes on calling
  \<^verbatim>\<open>WaitUntilZero\<close>, which returns false each time.
\<close>

theorem drain_wakes_all_witness:
  "consistent \<lparr>gate = \<lparr>counter = 1, numWaiters = 2\<rparr>,
               threads = [Parked UntilZero, Parked UntilZero, Running], returns = []\<rparr>
   \<and> no_stall True \<lparr>gate = \<lparr>counter = 1, numWaiters = 2\<rparr>,
               threads = [Parked UntilZero, Parked UntilZero, Running], returns = []\<rparr>
   \<and> never_adds_to_drain True [Call 2 CallDecrement 0]
        \<lparr>gate = \<lparr>counter = 1, numWaiters = 2\<rparr>,
          threads = [Parked UntilZero, Parked UntilZero, Running], returns = []\<rparr>
   \<and> run True [Call 2 CallDecrement 0]
        \<lparr>gate = \<lparr>counter = 1, numWaiters = 2\<rparr>,
          threads = [Parked UntilZero, Parked UntilZero, Running], returns = []\<rparr>
      = Some \<lparr>gate = \<lparr>counter = 0, numWaiters = 2\<rparr>,
              threads = [Woken UntilZero, Parked UntilZero, Running], returns = []\<rparr>
   \<and> counter \<lparr>counter = 0, numWaiters = 2\<rparr> \<le>s 0
   \<and> (\<exists>s1. step True (Resume 0 0)
              \<lparr>gate = \<lparr>counter = 0, numWaiters = 2\<rparr>,
                threads = [Woken UntilZero, Parked UntilZero, Running], returns = []\<rparr> = Some s1
          \<and> threads s1 ! 0 = Running \<and> returns s1 = [(0, True)])
   \<and> (\<exists>rs s''. list_all is_resume rs \<and> length rs = 2
          \<and> run True rs \<lparr>gate = \<lparr>counter = 0, numWaiters = 2\<rparr>,
                threads = [Woken UntilZero, Parked UntilZero, Running], returns = []\<rparr> = Some s''
          \<and> list_all (\<lambda>x. x = Running) (threads s'')
          \<and> (0, True) \<in> set (returns s'') \<and> (1, True) \<in> set (returns s''))
   \<and> run True [Resume 0 0, Resume 1 0]
        \<lparr>gate = \<lparr>counter = 0, numWaiters = 2\<rparr>,
          threads = [Woken UntilZero, Parked UntilZero, Running], returns = []\<rparr>
      = Some \<lparr>gate = \<lparr>counter = 0, numWaiters = 0\<rparr>,
              threads = [Running, Running, Running], returns = [(0, True), (1, True)]\<rparr>
   \<and> stays_drained True [Resume 0 0, Resume 1 0]
        \<lparr>gate = \<lparr>counter = 0, numWaiters = 2\<rparr>,
          threads = [Woken UntilZero, Parked UntilZero, Running], returns = []\<rparr>
   \<and> waiting [Running, Running, Running] + length (filter is_resume [Resume 0 0, Resume 1 0])
       = waiting [Woken UntilZero, Parked UntilZero, Running]
   \<and> fair True
        (\<lambda>i. if i = 0 then Call 2 CallDecrement 0 else if i = 1 then Resume 0 0
              else if i = 2 then Resume 1 0 else Wait 2 UntilZero 0)
        \<lparr>gate = \<lparr>counter = 1, numWaiters = 2\<rparr>,
          threads = [Parked UntilZero, Parked UntilZero, Running], returns = []\<rparr>
   \<and> (\<exists>i s1. 1 \<le> i
          \<and> run True
               (prefix_of (\<lambda>i. if i = 0 then Call 2 CallDecrement 0 else if i = 1 then Resume 0 0
                                else if i = 2 then Resume 1 0 else Wait 2 UntilZero 0) i)
               \<lparr>gate = \<lparr>counter = 1, numWaiters = 2\<rparr>,
                 threads = [Parked UntilZero, Parked UntilZero, Running], returns = []\<rparr>
             = Some s1
          \<and> list_all (\<lambda>x. x = Running) (threads s1)
          \<and> (0, True) \<in> set (returns s1) \<and> (1, True) \<in> set (returns s1))"
proof -
  let ?s = "\<lparr>gate = \<lparr>counter = 1, numWaiters = 2\<rparr>,
             threads = [Parked UntilZero, Parked UntilZero, Running], returns = []\<rparr>"
  let ?s' = "\<lparr>gate = \<lparr>counter = 0, numWaiters = 2\<rparr>,
              threads = [Woken UntilZero, Parked UntilZero, Running], returns = []\<rparr>"
  let ?s2 = "\<lparr>gate = \<lparr>counter = 0, numWaiters = 1\<rparr>,
              threads = [Running, Woken UntilZero, Running], returns = [(0, True)]\<rparr>"
  let ?sched = "\<lambda>i :: nat. if i = 0 then Call 2 CallDecrement 0 else if i = 1 then Resume 0 0
                  else if i = 2 then Resume 1 0 else Wait 2 UntilZero 0"
  define st where "st i = (if i = 0 then ?s else if i = 1 then ?s' else if i = 2 then ?s2
      else \<lparr>gate = \<lparr>counter = 0, numWaiters = 0\<rparr>, threads = [Running, Running, Running],
            returns = [(0, True), (1, True)] @ replicate (i - 3) (2, False)\<rparr>)" for i :: nat
  have sl: "sleepers [Parked UntilZero, Parked UntilZero, Running] = [0, 1]"
    by (simp add: sleepers_def upt_rec)
  have sl': "sleepers [Running, Parked UntilZero, Running] = [1]"
    by (simp add: sleepers_def upt_rec)
  have sl'': "sleepers [Running, Running, Running] = []"
    by (simp add: sleepers_def upt_rec)
  have h1: "consistent ?s" by (simp add: consistent_def waiting_def)
  have h2: "no_stall True ?s" by (simp add: no_stall_def word_sle_eq)
  have st0: "step True (Call 2 CallDecrement 0) ?s = Some ?s'"
    by (simp add: Decrement_def Let_def wake_waiters_def notify_one_def sl)
  have st1: "step True (Resume 0 0) ?s' = Some ?s2"
    by (simp add: Let_def finish_wait_def unregister_waiter_def relay_signal_def
        notify_one_def sl' word_sless_alt)
  have st2: "step True (Resume 1 0) ?s2 = Some (st 3)"
    by (simp add: st_def Let_def finish_wait_def unregister_waiter_def relay_signal_def
        notify_one_def sl'' word_sless_alt)
  have st3: "step True (Wait 2 UntilZero 0) (st i) = Some (st (Suc i))" if "3 \<le> i" for i
  proof -
    from that have "Suc i - 3 = Suc (i - 3)" by simp
    with that show ?thesis
      by (simp add: st_def finish_wait_def relay_signal_def replicate_append_same)
  qed
  have steps: "step True (?sched i) (st i) = Some (st (Suc i))" for i
  proof -
    consider "i = 0" | "i = 1" | "i = 2" | "3 \<le> i" by linarith
    then show ?thesis
    proof cases
      case 1
      then show ?thesis using st0 by (simp add: st_def)
    next
      case 2
      then show ?thesis using st1 by (simp add: st_def)
    next
      case 3
      then show ?thesis using st2 by (simp add: st_def)
    next
      case 4
      then show ?thesis using st3 [OF 4] by simp
    qed
  qed
  have runs: "run True (prefix_of ?sched i) ?s = Some (st i)" for i
  proof (induction i)
    case 0
    show ?case by (simp add: prefix_of_0 st_def)
  next
    case (Suc i)
    then show ?case by (simp only: prefix_of_Suc run_snoc option.case steps)
  qed
  have valid: "\<forall>i. run True (prefix_of ?sched i) ?s \<noteq> None"
    by (simp only: runs) simp
  have quiet: "\<not> adds_to_drain (?sched i) (st i)" for i
    by simp
  have sig: "\<forall>i. never_adds_to_drain True (prefix_of ?sched i) ?s"
  proof
    fix i
    show "never_adds_to_drain True (prefix_of ?sched i) ?s"
    proof (induction i)
      case 0
      show ?case by (simp add: prefix_of_0)
    next
      case (Suc i)
      then show ?case by (simp only: prefix_of_Suc never_adds_snoc runs option.case quiet) simp
    qed
  qed
  have low: "\<forall>i s1. 1 \<le> i \<and> run True (prefix_of ?sched i) ?s = Some s1
      \<longrightarrow> counter (gate s1) \<le>s 0"
  proof (intro allI impI, elim conjE)
    fix i s1
    assume "1 \<le> i" and "run True (prefix_of ?sched i) ?s = Some s1"
    then have "s1 = st i" "i \<noteq> 0" by (simp_all only: runs) simp_all
    then show "counter (gate s1) \<le>s 0" by (simp add: st_def)
  qed
  have fr: "fair True ?sched ?s"
    unfolding fair_def
  proof (intro allI impI, elim conjE)
    fix i s1 t
    assume "run True (prefix_of ?sched i) ?s = Some s1"
      and t: "t < length (threads s1)" "is_woken (threads s1 ! t)"
    then have s1: "s1 = st i" by (simp only: runs) simp
    consider "i = 0" | "i = 1" | "i = 2" | "3 \<le> i" by linarith
    then show "\<exists>j p. i \<le> j \<and> ?sched j = Resume t p"
    proof cases
      case 1
      with t s1 show ?thesis by (auto simp: st_def less_Suc_eq numeral_3_eq_3)
    next
      case 2
      with t s1 have "t = 0" by (auto simp: st_def less_Suc_eq numeral_3_eq_3)
      with 2 have "i \<le> 1 \<and> ?sched 1 = Resume t 0" by simp
      then show ?thesis by blast
    next
      case 3
      with t s1 have "t = 1" by (auto simp: st_def less_Suc_eq numeral_3_eq_3)
      with 3 have "i \<le> 2 \<and> ?sched 2 = Resume t 0" by simp
      then show ?thesis by blast
    next
      case 4
      with t s1 show ?thesis by (auto simp: st_def less_Suc_eq numeral_3_eq_3)
    qed
  qed
  have h3: "never_adds_to_drain True [Call 2 CallDecrement 0] ?s"
    by (simp only: never_adds_to_drain.simps adds_to_drain.simps st0)
      (simp add: Decrement_def Let_def wake_waiters_def)
  have h4: "run True [Call 2 CallDecrement 0] ?s = Some ?s'"
    by (simp only: run.simps st0) simp
  have h5: "counter (gate ?s') \<le>s 0" by simp
  have r: "run True [Resume 0 0, Resume 1 0] ?s'
      = Some \<lparr>gate = \<lparr>counter = 0, numWaiters = 0\<rparr>,
              threads = [Running, Running, Running], returns = [(0, True), (1, True)]\<rparr>"
    using st2 by (simp only: run.simps st1 option.case) (simp add: st_def)
  have sd: "stays_drained True [Resume 0 0, Resume 1 0] ?s'"
    using st2 by (simp only: stays_drained.simps st1 option.case) (simp add: st_def)
  note main = drain_wakes_all [OF h1 h2, of "[Call 2 CallDecrement 0]" ?s' ?sched 1]
  from main h3 h4 h5
  have a: "\<forall>t p. t < length (threads ?s') \<and> is_woken (threads ?s' ! t) \<longrightarrow>
          (\<exists>s1. step True (Resume t p) ?s' = Some s1 \<and> threads s1 ! t = Running
             \<and> returns s1 = returns ?s' @ [(t, True)]
             \<and> Suc (waiting (threads s1)) = waiting (threads ?s'))"
    and c: "\<forall>rs s''. stays_drained True rs ?s' \<and> run True rs ?s' = Some s'' \<longrightarrow>
          waiting (threads s'') + length (filter is_resume rs) = waiting (threads ?s')"
    and b: "\<exists>rs s''. list_all is_resume rs \<and> length rs = waiting (threads ?s')
          \<and> run True rs ?s' = Some s'' \<and> list_all (\<lambda>x. x = Running) (threads s'')
          \<and> (\<forall>t < length (threads ?s). threads ?s ! t = Parked UntilZero \<longrightarrow>
                (t, True) \<in> set (drop (length (returns ?s)) (returns s'')))"
    by blast+
  from main valid sig low fr
  have d: "\<exists>i s1. 1 \<le> i \<and> run True (prefix_of ?sched i) ?s = Some s1
          \<and> list_all (\<lambda>x. x = Running) (threads s1)
          \<and> (\<forall>t < length (threads ?s). threads ?s ! t = Parked UntilZero \<longrightarrow>
                (t, True) \<in> set (drop (length (returns ?s)) (returns s1)))"
    by blast
  have "0 < length (threads ?s') \<and> is_woken (threads ?s' ! 0)" by simp
  from a [rule_format, OF this, of 0]
  obtain s1 where "step True (Resume 0 0) ?s' = Some s1" "threads s1 ! 0 = Running"
    "returns s1 = returns ?s' @ [(0, True)]"
    by blast
  then have "step True (Resume 0 0) ?s' = Some s1 \<and> threads s1 ! 0 = Running
      \<and> returns s1 = [(0, True)]"
    by simp
  then have a0: "\<exists>s1. step True (Resume 0 0) ?s' = Some s1 \<and> threads s1 ! 0 = Running
      \<and> returns s1 = [(0, True)]" ..
  from b obtain rs s'' where rs: "list_all is_resume rs" "length rs = waiting (threads ?s')"
    "run True rs ?s' = Some s''" "list_all (\<lambda>x. x = Running) (threads s'')"
    and ret: "\<forall>t < length (threads ?s). threads ?s ! t = Parked UntilZero \<longrightarrow>
                (t, True) \<in> set (drop (length (returns ?s)) (returns s''))"
    by blast
  from ret [rule_format, of 0] ret [rule_format, of 1]
  have "(0, True) \<in> set (returns s'')" "(1, True) \<in> set (returns s'')" by simp_all
  moreover from rs(2) have "length rs = 2" by (simp add: waiting_def)
  ultimately have b': "\<exists>rs s''. list_all is_resume rs \<and> length rs = 2
          \<and> run True rs ?s' = Some s'' \<and> list_all (\<lambda>x. x = Running) (threads s'')
          \<and> (0, True) \<in> set (returns s'') \<and> (1, True) \<in> set (returns s'')"
    using rs by blast
  from d obtain i s1 where i: "1 \<le> i" "run True (prefix_of ?sched i) ?s = Some s1"
    "list_all (\<lambda>x. x = Running) (threads s1)"
    and ret1: "\<forall>t < length (threads ?s). threads ?s ! t = Parked UntilZero \<longrightarrow>
                (t, True) \<in> set (drop (length (returns ?s)) (returns s1))"
    by blast
  from ret1 [rule_format, of 0] ret1 [rule_format, of 1]
  have "(0, True) \<in> set (returns s1)" "(1, True) \<in> set (returns s1)" by simp_all
  with i have d': "\<exists>i s1. 1 \<le> i \<and> run True (prefix_of ?sched i) ?s = Some s1
          \<and> list_all (\<lambda>x. x = Running) (threads s1)
          \<and> (0, True) \<in> set (returns s1) \<and> (1, True) \<in> set (returns s1)"
    by blast
  from h5 have h5': "counter \<lparr>counter = 0, numWaiters = 2\<rparr> \<le>s 0" by simp
  from c [rule_format, OF conjI, OF sd r]
  have w: "waiting [Running, Running, Running]
             + length (filter is_resume [Resume 0 0, Resume 1 0])
           = waiting [Woken UntilZero, Parked UntilZero, Running]"
    by simp
  show ?thesis
    using h1 h2 h3 h4 h5' a0 b' r sd w fr d' by (intro conjI)
qed


text \<open>
  Claim C10. The waiting operations never write the counter. Along any schedule the
  counter is what the mutating calls of the schedule make of it, taken alone and in their
  order; and a waiting call that completes while the other threads run mutating calls
  leaves the counter that these calls alone produce. Registering and unregistering a
  waiter touch \<^verbatim>\<open>numWaiters\<close> only.
\<close>

theorem waits_leave_counter:
  "(run w es s = Some s' \<longrightarrow> counter (gate s') = counter (serial w (calls_of es) (gate s)))
   \<and> (WaitUntilZero w g (map (serial w) css) = Some r
        \<or> WaitOneWakeup w g (map (serial w) css) = Some r \<longrightarrow>
          counter (gate_exit r) = counter (serial w (concat (take (sleeps r) css)) g))
   \<and> counter (register_waiter g) = counter g
   \<and> counter (unregister_waiter g) = counter g"
proof (intro conjI impI)
  show "counter (gate s') = counter (serial w (calls_of es) (gate s))"
    if "run w es s = Some s'"
    using counter_run [OF that] by (simp add: counter_serial)
  show "counter (register_waiter g) = counter g" by (rule counter_register)
  show "counter (unregister_waiter g) = counter g" by (rule counter_unregister)
next
  assume "WaitUntilZero w g (map (serial w) css) = Some r
          \<or> WaitOneWakeup w g (map (serial w) css) = Some r"
  then show "counter (gate_exit r) = counter (serial w (concat (take (sleeps r) css)) g)"
  proof
    assume "WaitUntilZero w g (map (serial w) css) = Some r"
    then have "WaitUntilZero_loop w False 0 g (map (serial w) css) = Some r"
      by (simp add: WaitUntilZero_def)
    from loop_counter [OF this] show ?thesis by (simp add: counter_serial)
  next
    assume "WaitOneWakeup w g (map (serial w) css) = Some r"
    then show ?thesis
      by (cases css)
        (auto simp: WaitOneWakeup_def wait_exit_def counter_sleep_once_serial counter_serial
          net_delta_Nil split: if_splits)
  qed
qed

theorem waits_leave_counter_witness:
  "run True [Call 0 (CallAdd 2) 0, Wait 1 UntilZero 0, Call 0 (CallSubtract 2) 0, Resume 1 0]
       \<lparr>gate = \<lparr>counter = 0, numWaiters = 0\<rparr>, threads = [Running, Running], returns = []\<rparr>
     = Some \<lparr>gate = \<lparr>counter = 0, numWaiters = 0\<rparr>, threads = [Running, Running],
             returns = [(1, True)]\<rparr>
   \<and> counter (serial True [CallAdd 2, CallSubtract 2] \<lparr>counter = 0, numWaiters = 0\<rparr>) = 0
   \<and> WaitUntilZero True \<lparr>counter = 2, numWaiters = 0\<rparr>
       (map (serial True) [[CallDecrement], [CallDecrement], [CallIncrement]])
     = Some \<lparr>gate_exit = \<lparr>counter = 0, numWaiters = 0\<rparr>, didWait = True, relay = NoWake,
             sleeps = 2\<rparr>
   \<and> counter (serial True [CallDecrement, CallDecrement] \<lparr>counter = 2, numWaiters = 0\<rparr>) = 0"
proof -
  have r: "run True [Call 0 (CallAdd 2) 0, Wait 1 UntilZero 0, Call 0 (CallSubtract 2) 0,
                     Resume 1 0]
       \<lparr>gate = \<lparr>counter = 0, numWaiters = 0\<rparr>, threads = [Running, Running], returns = []\<rparr>
     = Some \<lparr>gate = \<lparr>counter = 0, numWaiters = 0\<rparr>, threads = [Running, Running],
             returns = [(1, True)]\<rparr>"
    by (simp add: Add_def Subtract_def Let_def go_to_sleep_def finish_wait_def
        register_waiter_def unregister_waiter_def relay_signal_def wake_waiters_def
        notify_one_def sleepers_def word_sless_alt word_sle_eq)
  have u: "WaitUntilZero True \<lparr>counter = 2, numWaiters = 0\<rparr>
       (map (serial True) [[CallDecrement], [CallDecrement], [CallIncrement]])
     = Some \<lparr>gate_exit = \<lparr>counter = 0, numWaiters = 0\<rparr>, didWait = True, relay = NoWake,
             sleeps = 2\<rparr>"
    by (simp add: WaitUntilZero_def sleep_once_def register_waiter_def unregister_waiter_def
        wait_exit_def relay_signal_def Decrement_def Let_def word_sless_alt)
  show ?thesis
    using r u waits_leave_counter [of True
        "[Call 0 (CallAdd 2) 0, Wait 1 UntilZero 0, Call 0 (CallSubtract 2) 0, Resume 1 0]"
        "\<lparr>gate = \<lparr>counter = 0, numWaiters = 0\<rparr>, threads = [Running, Running], returns = []\<rparr>"
        "\<lparr>gate = \<lparr>counter = 0, numWaiters = 0\<rparr>, threads = [Running, Running],
             returns = [(1, True)]\<rparr>"
        "\<lparr>counter = 2, numWaiters = 0\<rparr>"
        "[[CallDecrement], [CallDecrement], [CallIncrement]]"
        "\<lparr>gate_exit = \<lparr>counter = 0, numWaiters = 0\<rparr>, didWait = True, relay = NoWake,
             sleeps = 2\<rparr>"]
    by (simp add: numeral_2_eq_2)
qed


end
